theory Spec2Isabelle
  imports Main "HOL-Library.Sublist"
begin

section \<open>Errors\<close>

text \<open>
  The exceptions the program can raise, as values. \<open>RecursionError\<close> is what the
  interpreter raises when the nesting of calls exceeds its recursion limit;
  \<open>NotADirectory\<close> is the \<^verbatim>\<open>Exception\<close> of \<^verbatim>\<open>get_tf_files\<close>; \<open>OSError\<close> is a failing
  \<^verbatim>\<open>open\<close>, \<^verbatim>\<open>read\<close> or \<^verbatim>\<open>os.chdir\<close>; \<open>ParseError\<close> is any exception of \<^verbatim>\<open>hcl2.loads\<close>;
  \<open>TypeError\<close> is the membership test \<^verbatim>\<open>"./" in None\<close>; \<open>ValueError\<close> is
  \<^verbatim>\<open>os.path.relpath\<close> of an empty path.
\<close>

datatype error = RecursionError | NotADirectory | OSError | ParseError | TypeError | ValueError

section \<open>The reachability query: \<^verbatim>\<open>find_mods_affected\<close>\<close>






section \<open>Strings and paths\<close>

text \<open>
  The program works on paths through \<^verbatim>\<open>os.path\<close>. Its functions are modelled as Python's
  \<^verbatim>\<open>posixpath\<close> module defines them, on strings, with the working directory of the process
  as an argument where they call \<^verbatim>\<open>os.getcwd()\<close>.
\<close>

text \<open>The membership test \<^verbatim>\<open>sub in s\<close> on strings: \<open>sub\<close> occurs in \<open>s\<close>.\<close>

fun str_contains :: "string \<Rightarrow> string \<Rightarrow> bool" where
  "str_contains sub [] = (sub = [])"
| "str_contains sub (c # cs) = (prefix sub (c # cs) \<or> str_contains sub cs)"

text \<open>\<^verbatim>\<open>s.split(sep)\<close> for a separator of one character: \<^verbatim>\<open>"a//b".split("/")\<close> is
  \<^verbatim>\<open>["a", "", "b"]\<close> and \<^verbatim>\<open>"".split("/")\<close> is \<^verbatim>\<open>[""]\<close>.\<close>

fun str_split :: "char \<Rightarrow> string \<Rightarrow> string list" where
  "str_split sep [] = [[]]"
| "str_split sep (c # cs) =
     (if c = sep then [] # str_split sep cs
      else (case str_split sep cs of [] \<Rightarrow> [[c]] | w # ws \<Rightarrow> (c # w) # ws))"

text \<open>\<^verbatim>\<open>sep.join(words)\<close>\<close>

fun str_join :: "string \<Rightarrow> string list \<Rightarrow> string" where
  "str_join sep [] = []"
| "str_join sep [w] = w"
| "str_join sep (w # ws) = w @ sep @ str_join sep ws"

text \<open>\<^verbatim>\<open>os.path.isabs\<close> and \<^verbatim>\<open>os.path.join\<close> of two paths (POSIX).\<close>

definition isabs :: "string \<Rightarrow> bool" where
  "isabs p = prefix ''/'' p"

definition path_join :: "string \<Rightarrow> string \<Rightarrow> string" where
  "path_join a b =
     (if prefix ''/'' b then b
      else if a = [] \<or> suffix ''/'' a then a @ b
      else a @ ''/'' @ b)"

text \<open>
  \<^verbatim>\<open>os.path.normpath\<close>: the loop over the components, with \<open>new_comps\<close> as accumulator,
  and the function around it. \<open>initial_slashes\<close> is 0, 1 or 2.
\<close>

fun norm_comps :: "nat \<Rightarrow> string list \<Rightarrow> string list \<Rightarrow> string list" where
  "norm_comps initial_slashes new_comps [] = new_comps"
| "norm_comps initial_slashes new_comps (comp' # comps) =
     (if comp' = [] \<or> comp' = ''.'' then norm_comps initial_slashes new_comps comps
      else if comp' \<noteq> ''..'' \<or> (initial_slashes = 0 \<and> new_comps = [])
              \<or> (new_comps \<noteq> [] \<and> last new_comps = ''..'')
        then norm_comps initial_slashes (new_comps @ [comp']) comps
      else if new_comps \<noteq> [] then norm_comps initial_slashes (butlast new_comps) comps
      else norm_comps initial_slashes new_comps comps)"

definition normpath :: "string \<Rightarrow> string" where
  "normpath path =
     (if path = [] then ''.''
      else
        let initial_slashes =
              (if prefix ''/'' path
               then (if prefix ''//'' path \<and> \<not> prefix ''///'' path then 2 else 1)
               else 0);
            comps = norm_comps initial_slashes [] (str_split CHR ''/'' path);
            joined = replicate initial_slashes CHR ''/'' @ str_join ''/'' comps
        in if joined = [] then ''.'' else joined)"

text \<open>\<^verbatim>\<open>os.path.abspath\<close>, with the process working directory as an argument.\<close>

definition abspath :: "string \<Rightarrow> string \<Rightarrow> string" where
  "abspath cwd path = normpath (if isabs path then path else path_join cwd path)"

text \<open>
  \<^verbatim>\<open>os.path.relpath(path, start)\<close>. \<^verbatim>\<open>commonprefix\<close> of the two component lists is their
  longest common prefix; \<^verbatim>\<open>join(*rel_list)\<close> folds \<^verbatim>\<open>join\<close> over the list. An empty
  \<open>path\<close> raises \<open>ValueError\<close>.
\<close>

definition relpath :: "string \<Rightarrow> string \<Rightarrow> string \<Rightarrow> error + string" where
  "relpath cwd path start =
     (if path = [] then Inl ValueError
      else
        let start_list = filter (\<lambda>x. x \<noteq> []) (str_split CHR ''/'' (abspath cwd start));
            path_list = filter (\<lambda>x. x \<noteq> []) (str_split CHR ''/'' (abspath cwd path));
            i = length (longest_common_prefix start_list path_list);
            rel_list = replicate (length start_list - i) ''..'' @ drop i path_list
        in (case rel_list of [] \<Rightarrow> Inr ''.'' | a # p \<Rightarrow> Inr (foldl path_join a p)))"

section \<open>The file system and the parser\<close>

text \<open>
  What \<^verbatim>\<open>hcl2.loads\<close> returns, as far as the program reads it: a dictionary from a block
  type (\<^verbatim>\<open>'module'\<close>) to a list of dictionaries, each from a block's name to the
  dictionary of its attributes. Dictionaries are association lists in the order of
  \<^verbatim>\<open>items()\<close>.
\<close>

type_synonym module_dict = "(string \<times> string) list"
type_synonym tf_dict = "(string \<times> (string \<times> module_dict) list list) list"

text \<open>
  The world the program runs in: \<open>listdir\<close> gives the entries of a directory (\<open>None\<close>
  when the path is no directory), \<open>readfile\<close> the content of a file (\<open>None\<close> when
  \<^verbatim>\<open>open\<close> or \<^verbatim>\<open>read\<close> fails), both for absolute paths, and \<open>hcl2_loads\<close> is the parser of
  the \<^verbatim>\<open>hcl2\<close> library (\<open>None\<close> when it raises). The file system has no symbolic links,
  so that the directory the kernel reaches by a path is the one its normalised text names.
\<close>

record world =
  listdir :: "string \<Rightarrow> string list option"
  readfile :: "string \<Rightarrow> string option"
  hcl2_loads :: "string \<Rightarrow> tf_dict option"

definition isdir :: "world \<Rightarrow> string \<Rightarrow> bool" where
  "isdir w path = (listdir w path \<noteq> None)"

text \<open>
  \<^verbatim>\<open>os.chdir(path)\<close>: the new working directory, or the error. The directory is looked
  up by the normalised text of the path. That is what the kernel does for a normalised
  path, which every directory that \<^verbatim>\<open>find_deps_for_dir\<close> enters is; for a path with \<^verbatim>\<open>..\<close> in
  it the kernel also wants the directory before \<^verbatim>\<open>..\<close> to exist, and for a path with two
  leading slashes \<^verbatim>\<open>os.getcwd()\<close> gives one. Where a property promises that a map is
  returned, it is therefore stated for a normalised \<open>start_dir\<close> with one leading slash.
\<close>

definition chdir :: "world \<Rightarrow> string \<Rightarrow> string \<Rightarrow> error + string" where
  "chdir w cwd path =
     (if path = [] then Inl OSError
      else if isdir w (abspath cwd path) then Inr (abspath cwd path)
      else Inl OSError)"

text \<open>\<^verbatim>\<open>tf_dict.get('module', [])\<close>\<close>

definition tf_get_module :: "tf_dict \<Rightarrow> (string \<times> module_dict) list list" where
  "tf_get_module tf_dict = (case map_of tf_dict ''module'' of None \<Rightarrow> [] | Some ms \<Rightarrow> ms)"

text \<open>The two nested loops of \<^verbatim>\<open>extract_sources\<close>: \<^verbatim>\<open>module_dict.get('source')\<close> of every
  block, \<open>None\<close> where a block has no such attribute.\<close>

definition module_sources :: "tf_dict \<Rightarrow> string option list" where
  "module_sources tf_dict =
     concat (map (\<lambda>m. map (\<lambda>(_, module_dict). map_of module_dict ''source'') m)
       (tf_get_module tf_dict))"

definition extract_sources :: "world \<Rightarrow> string \<Rightarrow> error + string option list" where
  "extract_sources w path =
     (case readfile w path of
        None \<Rightarrow> Inl OSError
      | Some data \<Rightarrow>
          if str_contains ''source '' data
          then (case hcl2_loads w data of
                  None \<Rightarrow> Inl ParseError
                | Some tf_dict \<Rightarrow> Inr (module_sources tf_dict))
          else Inr [])"

text \<open>
  Full parsing, in the words of the specification: the declared sources of every module
  block of the file, with no short cut.
\<close>

definition extract_sources_full :: "world \<Rightarrow> string \<Rightarrow> error + string option list" where
  "extract_sources_full w path =
     (case readfile w path of
        None \<Rightarrow> Inl OSError
      | Some data \<Rightarrow>
          (case hcl2_loads w data of
             None \<Rightarrow> Inl ParseError
           | Some tf_dict \<Rightarrow> Inr (module_sources tf_dict)))"

definition get_tf_files :: "world \<Rightarrow> string \<Rightarrow> error + string list" where
  "get_tf_files w path =
     (case listdir w path of
        None \<Rightarrow> Inl NotADirectory
      | Some files \<Rightarrow> Inr (filter (\<lambda>x. suffix ''.tf'' x) files))"

section \<open>The graph builder: \<^verbatim>\<open>build_dependency_dict\<close>\<close>

text \<open>
  The state the builder works on: the dictionary \<open>dependents\<close> (a \<^verbatim>\<open>defaultdict(set)\<close>),
  the keys of the \<^verbatim>\<open>lru_cache\<close> of \<^verbatim>\<open>find_deps_for_dir\<close>, most recently used first, and
  the working directory of the process.
\<close>

record state =
  dependents :: "string \<rightharpoonup> string set"
  lru :: "string list"
  cwd :: string

text \<open>\<^verbatim>\<open>dependents[key].add(v)\<close>\<close>

definition add_dependent :: "(string \<rightharpoonup> string set) \<Rightarrow> string \<Rightarrow> string \<Rightarrow> (string \<rightharpoonup> string set)" where
  "add_dependent deps key v =
     deps(key \<mapsto> insert v (case deps key of None \<Rightarrow> {} | Some s \<Rightarrow> s))"

text \<open>
  \<^verbatim>\<open>functools.lru_cache()\<close> keeps at most 128 keys. After a call that missed the cache
  returns, its key is stored: nothing changes when a nested call stored it already, and a
  full cache drops its least recently used key.
\<close>

definition lru_maxsize :: nat where
  "lru_maxsize = 128"

definition lru_store :: "string list \<Rightarrow> string \<Rightarrow> string list" where
  "lru_store cache key =
     (if key \<in> set cache then cache
      else if lru_maxsize \<le> length cache then key # butlast cache
      else key # cache)"

text \<open>
  The loop over the sources of one file. \<open>rec\<close> is the recursive call
  \<^verbatim>\<open>find_deps_for_dir(abs_mod_path)\<close>.
\<close>

fun for_sources ::
  "world \<Rightarrow> string \<Rightarrow> (string \<Rightarrow> state \<Rightarrow> error + state) \<Rightarrow> string \<Rightarrow> string option list
     \<Rightarrow> state \<Rightarrow> error + state" where
  "for_sources w start_dir rec tf_dir [] st = Inr st"
| "for_sources w start_dir rec tf_dir (source # sources) st =
     (case source of
        None \<Rightarrow> Inl TypeError
      | Some src \<Rightarrow>
          if str_contains ''./'' src then
            (case chdir w (cwd st) tf_dir of
               Inl e \<Rightarrow> Inl e
             | Inr c \<Rightarrow>
                 (case relpath c (abspath c src) start_dir of
                    Inl e \<Rightarrow> Inl e
                  | Inr rel_mod_path \<Rightarrow>
                      (case relpath c tf_dir start_dir of
                         Inl e \<Rightarrow> Inl e
                       | Inr rel_child_path \<Rightarrow>
                           (case rec (abspath c src)
                                   (st\<lparr>cwd := c,
                                       dependents :=
                                         add_dependent (dependents st) rel_mod_path rel_child_path\<rparr>) of
                              Inl e \<Rightarrow> Inl e
                            | Inr st' \<Rightarrow> for_sources w start_dir rec tf_dir sources st'))))
          else for_sources w start_dir rec tf_dir sources st)"

text \<open>The loop over the \<^verbatim>\<open>.tf\<close> files of a directory.\<close>

fun for_files ::
  "world \<Rightarrow> string \<Rightarrow> (string \<Rightarrow> state \<Rightarrow> error + state) \<Rightarrow> string \<Rightarrow> string list
     \<Rightarrow> state \<Rightarrow> error + state" where
  "for_files w start_dir rec tf_dir [] st = Inr st"
| "for_files w start_dir rec tf_dir (file # files) st =
     (case extract_sources w (path_join tf_dir file) of
        Inl e \<Rightarrow> Inl e
      | Inr sources \<Rightarrow>
          (case for_sources w start_dir rec tf_dir sources st of
             Inl e \<Rightarrow> Inl e
           | Inr st' \<Rightarrow> for_files w start_dir rec tf_dir files st'))"

text \<open>
  \<^verbatim>\<open>find_deps_for_dir\<close> behind its cache. A key in the cache is a hit: the cached result
  is returned and the key becomes the most recently used. Otherwise the body runs, one
  call deeper: \<open>n\<close> is the number of nested calls of \<^verbatim>\<open>find_deps_for_dir\<close> the interpreter
  still allows, and a call with none left raises \<open>RecursionError\<close>. The key is stored when
  the body has returned; an exception stores nothing and ends the whole build.
\<close>

fun find_deps_for_dir :: "world \<Rightarrow> string \<Rightarrow> nat \<Rightarrow> string \<Rightarrow> state \<Rightarrow> error + state" where
  "find_deps_for_dir w start_dir 0 tf_dir st =
     (if tf_dir \<in> set (lru st) then Inr (st\<lparr>lru := tf_dir # remove1 tf_dir (lru st)\<rparr>)
      else Inl RecursionError)"
| "find_deps_for_dir w start_dir (Suc k) tf_dir st =
     (if tf_dir \<in> set (lru st) then Inr (st\<lparr>lru := tf_dir # remove1 tf_dir (lru st)\<rparr>)
      else
        (case get_tf_files w tf_dir of
           Inl e \<Rightarrow> Inl e
         | Inr files \<Rightarrow>
             (case for_files w start_dir (\<lambda>d s. find_deps_for_dir w start_dir k d s) tf_dir files st of
                Inl e \<Rightarrow> Inl e
              | Inr st' \<Rightarrow> Inr (st'\<lparr>lru := lru_store (lru st') tf_dir\<rparr>))))"

text \<open>The loop over the roots, and \<^verbatim>\<open>build_dependency_dict\<close>: \<open>cwd0\<close> is the working
  directory of the process when it is called. Of the state it returns, \<open>dependents\<close> is
  the dictionary the program returns and \<open>cwd\<close> the working directory it leaves.\<close>

fun for_roots :: "world \<Rightarrow> string \<Rightarrow> nat \<Rightarrow> string list \<Rightarrow> state \<Rightarrow> error + state" where
  "for_roots w start_dir n [] st = Inr st"
| "for_roots w start_dir n (start_root # roots) st =
     (case chdir w (cwd st) start_dir of
        Inl e \<Rightarrow> Inl e
      | Inr c \<Rightarrow>
          (case find_deps_for_dir w start_dir n (abspath c start_root) (st\<lparr>cwd := c\<rparr>) of
             Inl e \<Rightarrow> Inl e
           | Inr st' \<Rightarrow> for_roots w start_dir n roots st'))"

definition build_dependency_dict ::
  "world \<Rightarrow> nat \<Rightarrow> string \<Rightarrow> string list \<Rightarrow> string \<Rightarrow> error + state" where
  "build_dependency_dict w n cwd0 roots start_dir =
     (case chdir w cwd0 start_dir of
        Inl e \<Rightarrow> Inl e
      | Inr c \<Rightarrow> for_roots w start_dir n roots \<lparr>dependents = Map.empty, lru = [], cwd = c\<rparr>)"

section \<open>Notions the properties are stated with\<close>

text \<open>The edge \<open>key \<leftarrow> v\<close> is recorded: \<open>v\<close> is in \<^verbatim>\<open>dependents[key]\<close>.\<close>

definition has_edge :: "state \<Rightarrow> string \<Rightarrow> string \<Rightarrow> bool" where
  "has_edge st key v = (case dependents st key of None \<Rightarrow> False | Some s \<Rightarrow> v \<in> s)"


text \<open>
  The sources of a list of \<^verbatim>\<open>extract_sources\<close> that \<^verbatim>\<open>find_deps_for_dir\<close> follows, those
  with \<^verbatim>\<open>./\<close> in them, and all of them in the declaration files of a directory.
\<close>

definition followed :: "string option list \<Rightarrow> string list" where
  "followed sources =
     concat (map (\<lambda>source. case source of None \<Rightarrow> []
                              | Some src \<Rightarrow> if str_contains ''./'' src then [src] else []) sources)"

definition relative_sources :: "world \<Rightarrow> string \<Rightarrow> string list" where
  "relative_sources w tf_dir =
     (case get_tf_files w tf_dir of
        Inl e \<Rightarrow> []
      | Inr files \<Rightarrow>
          concat (map (\<lambda>file. case extract_sources w (path_join tf_dir file) of
                                 Inl e \<Rightarrow> []
                               | Inr sources \<Rightarrow> followed sources) files))"

text \<open>
  The module graph of a world: \<open>(d', d)\<close> when the directory \<open>d\<close>, given by an absolute
  path, declares a relative source that resolves to \<open>d'\<close>. The source is resolved against
  the working directory after \<^verbatim>\<open>os.chdir(d)\<close>, which is \<open>normpath d\<close>.
\<close>

definition module_refs :: "world \<Rightarrow> (string \<times> string) set" where
  "module_refs w =
     {(abspath (normpath d) src, d) | d src. isabs d \<and> src \<in> set (relative_sources w d)}"

text \<open>
  All the sources declared in a directory, in the order in which \<^verbatim>\<open>find_deps_for_dir\<close>
  meets them: the lists \<^verbatim>\<open>extract_sources\<close> returns for the files of \<^verbatim>\<open>get_tf_files\<close>, one
  after the other.
\<close>

fun collect_sources :: "world \<Rightarrow> string \<Rightarrow> string list \<Rightarrow> error + string option list" where
  "collect_sources w tf_dir [] = Inr []"
| "collect_sources w tf_dir (file # files) =
     (case extract_sources w (path_join tf_dir file) of
        Inl e \<Rightarrow> Inl e
      | Inr sources \<Rightarrow>
          (case collect_sources w tf_dir files of
             Inl e \<Rightarrow> Inl e
           | Inr rest \<Rightarrow> Inr (sources @ rest)))"

definition dir_sources :: "world \<Rightarrow> string \<Rightarrow> error + string option list" where
  "dir_sources w tf_dir =
     (case get_tf_files w tf_dir of
        Inl e \<Rightarrow> Inl e
      | Inr files \<Rightarrow> collect_sources w tf_dir files)"

text \<open>A directory given by its normalised absolute path, as \<^verbatim>\<open>os.path.abspath\<close> returns it.\<close>

definition canonical :: "string \<Rightarrow> bool" where
  "canonical d = (isabs d \<and> normpath d = d)"

text \<open>The components of a normalised absolute path: none is empty, \<^verbatim>\<open>.\<close> or \<^verbatim>\<open>..\<close>, and
  none has a separator in it.\<close>

definition clean_comps :: "string list \<Rightarrow> bool" where
  "clean_comps ws = (\<forall>w\<in>set ws. w \<noteq> [] \<and> w \<noteq> ''.'' \<and> w \<noteq> ''..'' \<and> CHR ''/'' \<notin> set w)"

text \<open>
  The identity of a directory: its path relative to \<open>start_dir\<close>. For absolute paths
  \<^verbatim>\<open>os.path.relpath\<close> does not look at the working directory.
\<close>

definition module_identity :: "string \<Rightarrow> string \<Rightarrow> string" where
  "module_identity start_dir d =
     (case relpath start_dir d start_dir of Inl e \<Rightarrow> [] | Inr rel \<Rightarrow> rel)"

text \<open>
  The directory \<open>d\<close> declares exactly the modules \<open>targets\<close>: its declaration files can
  be read and parsed, every module block has a source, and the relative sources resolve
  (against the working directory after \<^verbatim>\<open>os.chdir(d)\<close>) to the directories \<open>targets\<close>.
\<close>

definition declares :: "world \<Rightarrow> string \<Rightarrow> string set \<Rightarrow> bool" where
  "declares w d targets =
     (case dir_sources w d of
        Inl e \<Rightarrow> False
      | Inr sources \<Rightarrow>
          None \<notin> set sources \<and> abspath (normpath d) ` set (followed sources) = targets)"

text \<open>
  A diamond: the root \<open>R\<close> declares \<open>A\<close> and \<open>B\<close>, both declare \<open>C\<close>, which declares no
  module, and the identity of \<open>C\<close> is not that of \<open>A\<close> or \<open>B\<close>. The start directory is
  given as \<^verbatim>\<open>main\<close> gives it, by \<^verbatim>\<open>os.path.abspath(os.path.curdir)\<close>: a normalised absolute
  path with one leading slash. The four directories have one leading slash too, so that
  the working directory after \<^verbatim>\<open>os.chdir\<close> to one of them is its path.
\<close>

definition diamond :: "world \<Rightarrow> string \<Rightarrow> string \<Rightarrow> string \<Rightarrow> string \<Rightarrow> string \<Rightarrow> bool" where
  "diamond w start_dir R A B C =
     (canonical start_dir \<and> \<not> prefix ''//'' start_dir \<and>
      \<not> prefix ''//'' R \<and> \<not> prefix ''//'' A \<and> \<not> prefix ''//'' B \<and> \<not> prefix ''//'' C \<and>
      declares w R {A, B} \<and> declares w A {C} \<and> declares w B {C} \<and>
      declares w C {} \<and>
      module_identity start_dir C \<noteq> module_identity start_dir A \<and>
      module_identity start_dir C \<noteq> module_identity start_dir B)"

text \<open>
  What holds of every state while a diamond is built: once \<open>A\<close> (or \<open>B\<close>) is in the cache
  its edge to \<open>C\<close> is recorded, and \<open>C\<close> has no dependent but \<open>A\<close> and \<open>B\<close>.
\<close>

definition diamond_inv :: "string \<Rightarrow> string \<Rightarrow> string \<Rightarrow> string \<Rightarrow> state \<Rightarrow> bool" where
  "diamond_inv start_dir A B C st =
     ((A \<in> set (lru st) \<longrightarrow>
         has_edge st (module_identity start_dir C) (module_identity start_dir A)) \<and>
      (B \<in> set (lru st) \<longrightarrow>
         has_edge st (module_identity start_dir C) (module_identity start_dir B)) \<and>
      (\<forall>v. has_edge st (module_identity start_dir C) v \<longrightarrow>
         v = module_identity start_dir A \<or> v = module_identity start_dir B))"

section \<open>Example inputs\<close>



text \<open>
  A root \<^verbatim>\<open>/r\<close> whose only declaration file declares the module \<^verbatim>\<open>/m\<close>, a directory
  with no declaration file. The parser is given by what it returns on the texts at hand.
\<close>

definition chain_tf :: string where
  \<open>chain_tf = ''module "m" { source = "../m" }''\<close>

definition chain_world :: world where
  "chain_world =
     \<lparr>listdir = map_of [(''/'', [''r'', ''m'']), (''/r'', [''main.tf'', ''README.md'']), (''/m'', [])],
      readfile = map_of [(''/r/main.tf'', chain_tf)],
      hcl2_loads = map_of [(chain_tf, [(''module'', [[(''m'', [(''source'', ''../m'')])]])])]\<rparr>"

text \<open>Two directories that declare each other.\<close>

definition cycle_tf_a :: string where
  \<open>cycle_tf_a = ''module "b" { source = "../b" }''\<close>

definition cycle_tf_b :: string where
  \<open>cycle_tf_b = ''module "a" { source = "../a" }''\<close>

definition cycle_world :: world where
  "cycle_world =
     \<lparr>listdir = map_of [(''/'', [''a'', ''b'']), (''/a'', [''x.tf'']), (''/b'', [''y.tf''])],
      readfile = map_of [(''/a/x.tf'', cycle_tf_a), (''/b/y.tf'', cycle_tf_b)],
      hcl2_loads = map_of
        [(cycle_tf_a, [(''module'', [[(''b'', [(''source'', ''../b'')])]])]),
         (cycle_tf_b, [(''module'', [[(''a'', [(''source'', ''../a'')])]])])]\<rparr>"



text \<open>A root that declares a source with \<^verbatim>\<open>./\<close> inside, not at its beginning.\<close>

definition inner_dot_tf :: string where
  \<open>inner_dot_tf = ''module "v" { source = "m/./v" }''\<close>

definition inner_dot_world :: world where
  "inner_dot_world =
     \<lparr>listdir = map_of [(''/'', [''r'']), (''/r'', [''main.tf'', ''m'']), (''/r/m'', [''v'']),
                         (''/r/m/v'', [])],
      readfile = map_of [(''/r/main.tf'', inner_dot_tf)],
      hcl2_loads = map_of [(inner_dot_tf, [(''module'', [[(''v'', [(''source'', ''m/./v'')])]])])]\<rparr>"

text \<open>A root that declares a registry module.\<close>

definition registry_tf :: string where
  \<open>registry_tf = ''module "c" { source = "hashicorp/consul/aws" }''\<close>

definition registry_world :: world where
  "registry_world =
     \<lparr>listdir = map_of [(''/'', [''r'']), (''/r'', [''main.tf''])],
      readfile = map_of [(''/r/main.tf'', registry_tf)],
      hcl2_loads = map_of
        [(registry_tf, [(''module'', [[(''c'', [(''source'', ''hashicorp/consul/aws'')])]])])]\<rparr>"

text \<open>A module block with no \<^verbatim>\<open>source\<close> attribute, before one that has it.\<close>

definition no_source_tf :: string where
  \<open>no_source_tf = ''module "a" { } module "c" { source = "hashicorp/consul/aws" }''\<close>

definition no_source_world :: world where
  "no_source_world =
     \<lparr>listdir = map_of [(''/'', [''r'']), (''/r'', [''main.tf''])],
      readfile = map_of [(''/r/main.tf'', no_source_tf)],
      hcl2_loads = map_of
        [(no_source_tf,
          [(''module'', [[(''a'', [])], [(''c'', [(''source'', ''hashicorp/consul/aws'')])]])])]\<rparr>"

text \<open>A declaration that has no blank after \<^verbatim>\<open>source\<close>.\<close>

definition tight_tf :: string where
  \<open>tight_tf = ''module "m" { source="../m" }''\<close>

definition tight_world :: world where
  "tight_world =
     \<lparr>listdir = map_of [(''/'', [''r'', ''m'']), (''/r'', [''main.tf'']), (''/m'', [])],
      readfile = map_of [(''/r/main.tf'', tight_tf)],
      hcl2_loads = map_of [(tight_tf, [(''module'', [[(''m'', [(''source'', ''../m'')])]])])]\<rparr>"

text \<open>
  A diamond: the root \<^verbatim>\<open>/r\<close> declares \<^verbatim>\<open>/r/a\<close> and \<^verbatim>\<open>/r/b\<close>, and both declare \<^verbatim>\<open>/r/c\<close>,
  by different strings.
\<close>

definition diamond_tf_r :: string where
  \<open>diamond_tf_r = ''module "a" { source = "./a" } module "b" { source = "./b" }''\<close>

definition diamond_tf_a :: string where
  \<open>diamond_tf_a = ''module "c" { source = "../c" }''\<close>

definition diamond_tf_b :: string where
  \<open>diamond_tf_b = ''module "c" { source = "./../../r/c" }''\<close>

definition diamond_world :: world where
  "diamond_world =
     \<lparr>listdir = map_of [(''/'', [''r'']), (''/r'', [''main.tf'', ''a'', ''b'', ''c'']),
                         (''/r/a'', [''main.tf'']), (''/r/b'', [''main.tf'']), (''/r/c'', [])],
      readfile = map_of [(''/r/main.tf'', diamond_tf_r), (''/r/a/main.tf'', diamond_tf_a),
                          (''/r/b/main.tf'', diamond_tf_b)],
      hcl2_loads = map_of
        [(diamond_tf_r,
          [(''module'', [[(''a'', [(''source'', ''./a'')])], [(''b'', [(''source'', ''./b'')])]])]),
         (diamond_tf_a, [(''module'', [[(''c'', [(''source'', ''../c'')])]])]),
         (diamond_tf_b, [(''module'', [[(''c'', [(''source'', ''./../../r/c'')])]])])]\<rparr>"

section \<open>Properties of the query\<close>



















section \<open>Properties of the builder\<close>

text \<open>The definitions that evaluate a build on a given world.\<close>

lemmas path_eval = relpath_def abspath_def normpath_def isabs_def path_join_def suffix_to_prefix
lemmas build_eval = build_dependency_dict_def chdir_def isdir_def get_tf_files_def
  extract_sources_def module_sources_def tf_get_module_def add_dependent_def lru_store_def
  lru_maxsize_def

subsection \<open>The working directory\<close>

lemma chdir_isdir: "chdir w c p = Inr c' \<Longrightarrow> isdir w c'"
  by (auto simp: chdir_def split: if_splits)

text \<open>
  A property \<open>Q\<close> of the working directory that every \<^verbatim>\<open>os.chdir\<close> keeps is kept by the
  loops and by \<^verbatim>\<open>find_deps_for_dir\<close>.
\<close>

lemma for_sources_cwd:
  assumes "\<And>cw p c. chdir w cw p = Inr c \<Longrightarrow> Q cw \<Longrightarrow> Q c"
    and "\<And>d s s'. rec d s = Inr s' \<Longrightarrow> Q (cwd s) \<Longrightarrow> Q (cwd s')"
    and "for_sources w start_dir rec tf_dir sources st = Inr st'"
    and "Q (cwd st)"
  shows "Q (cwd st')"
  using assms(3,4)
proof (induction sources arbitrary: st)
  case Nil
  then show ?case by simp
next
  case (Cons source sources)
  show ?case
  proof (cases "\<exists>src. source = Some src \<and> str_contains ''./'' src")
    case False
    with Cons show ?thesis by (auto split: option.splits)
  next
    case True
    then obtain src where src: "source = Some src" "str_contains ''./'' src" by blast
    with Cons.prems(1) obtain c m ch s1
      where c: "chdir w (cwd st) tf_dir = Inr c"
        and s1: "rec (abspath c src) (st\<lparr>cwd := c, dependents := add_dependent (dependents st) m ch\<rparr>) = Inr s1"
        and rest: "for_sources w start_dir rec tf_dir sources s1 = Inr st'"
      by (auto split: sum.splits)
    from assms(1)[OF c Cons.prems(2)] have "Q c" .
    with assms(2)[OF s1] have "Q (cwd s1)" by simp
    with Cons.IH[OF rest] show ?thesis .
  qed
qed

lemma for_files_cwd:
  assumes "\<And>cw p c. chdir w cw p = Inr c \<Longrightarrow> Q cw \<Longrightarrow> Q c"
    and "\<And>d s s'. rec d s = Inr s' \<Longrightarrow> Q (cwd s) \<Longrightarrow> Q (cwd s')"
    and "for_files w start_dir rec tf_dir files st = Inr st'"
    and "Q (cwd st)"
  shows "Q (cwd st')"
  using assms(3,4)
proof (induction files arbitrary: st)
  case Nil
  then show ?case by simp
next
  case (Cons f files)
  from Cons.prems(1) obtain sources s1
    where s1: "for_sources w start_dir rec tf_dir sources st = Inr s1"
      and rest: "for_files w start_dir rec tf_dir files s1 = Inr st'"
    by (auto split: sum.splits)
  from for_sources_cwd[of w Q, OF assms(1,2) s1 Cons.prems(2)] have "Q (cwd s1)" by simp
  with Cons.IH[OF rest] show ?case .
qed

lemma find_deps_for_dir_cwd:
  assumes "\<And>cw p c. chdir w cw p = Inr c \<Longrightarrow> Q cw \<Longrightarrow> Q c"
  shows "find_deps_for_dir w start_dir n tf_dir st = Inr st' \<Longrightarrow> Q (cwd st) \<Longrightarrow> Q (cwd st')"
proof (induction n arbitrary: tf_dir st st')
  case 0
  then show ?case by (auto split: if_splits)
next
  case (Suc k)
  show ?case
  proof (cases "tf_dir \<in> set (lru st)")
    case True
    with Suc.prems show ?thesis by auto
  next
    case False
    with Suc.prems(1) obtain files s1
      where s1: "for_files w start_dir (\<lambda>d s. find_deps_for_dir w start_dir k d s) tf_dir files st = Inr s1"
        and st': "st' = s1\<lparr>lru := lru_store (lru s1) tf_dir\<rparr>"
      by (auto split: sum.splits)
    have "Q (cwd s1)"
    proof (rule for_files_cwd[of w Q, OF _ _ s1 Suc.prems(2)])
      show "\<And>cw p c. chdir w cw p = Inr c \<Longrightarrow> Q cw \<Longrightarrow> Q c"
        by (rule assms)
      show "\<And>d s s'. find_deps_for_dir w start_dir k d s = Inr s' \<Longrightarrow> Q (cwd s) \<Longrightarrow> Q (cwd s')"
        by (rule Suc.IH)
    qed
    with st' show ?thesis by simp
  qed
qed

lemma for_roots_cwd:
  assumes "\<And>cw p c. chdir w cw p = Inr c \<Longrightarrow> Q cw \<Longrightarrow> Q c"
  shows "for_roots w start_dir n roots st = Inr st' \<Longrightarrow> Q (cwd st) \<Longrightarrow> Q (cwd st')"
proof (induction roots arbitrary: st)
  case Nil
  then show ?case by simp
next
  case (Cons r roots)
  from Cons.prems(1) obtain c s1
    where c: "chdir w (cwd st) start_dir = Inr c"
      and s1: "find_deps_for_dir w start_dir n (abspath c r) (st\<lparr>cwd := c\<rparr>) = Inr s1"
      and rest: "for_roots w start_dir n roots s1 = Inr st'"
    by (auto split: sum.splits)
  from assms[OF c Cons.prems(2)] have "Q c" .
  moreover have "Q (cwd (st\<lparr>cwd := c\<rparr>)) \<Longrightarrow> Q (cwd s1)"
    by (rule find_deps_for_dir_cwd[of w Q, OF _ s1]) (rule assms)
  ultimately have "Q (cwd s1)" by simp
  with Cons.IH[OF rest] show ?case .
qed

text \<open>
  Claim C3, amended: \<^verbatim>\<open>build_dependency_dict\<close> does change the working directory of the
  process. It changes to \<open>start_dir\<close> first, and to the directory it expands before it
  resolves a relative source against it. When it returns, the process is in the directory
  it entered last, an existing directory, which for an empty root list is \<open>start_dir\<close>
  (made absolute), with an empty map returned; the directory the process was in before
  the call is not restored.
\<close>

theorem build_dependency_dict_leaves_cwd:
  assumes "build_dependency_dict w n cwd0 roots start_dir = Inr st"
  shows "isdir w (cwd st) \<and>
         (roots = [] \<longrightarrow> cwd st = abspath cwd0 start_dir \<and> dependents st = Map.empty)"
proof -
  from assms obtain c where c: "chdir w cwd0 start_dir = Inr c"
    and run: "for_roots w start_dir n roots \<lparr>dependents = Map.empty, lru = [], cwd = c\<rparr> = Inr st"
    by (auto simp: build_dependency_dict_def split: sum.splits)
  have "isdir w (cwd \<lparr>dependents = Map.empty, lru = [], cwd = c\<rparr>) \<Longrightarrow> isdir w (cwd st)"
    by (rule for_roots_cwd[of w "isdir w", OF _ run]) (rule chdir_isdir)
  with chdir_isdir[OF c] have "isdir w (cwd st)" by simp
  moreover from c have "c = abspath cwd0 start_dir"
    by (auto simp: chdir_def split: if_splits)
  with run have "roots = [] \<longrightarrow> cwd st = abspath cwd0 start_dir \<and> dependents st = Map.empty"
    by auto
  ultimately show ?thesis by simp
qed

lemma chain_world_build:
  "\<exists>st. build_dependency_dict chain_world 2 ''/'' [''r''] ''/'' = Inr st \<and>
     dependents st ''m'' = Some {''r''} \<and> cwd st = ''/r''"
  by (simp add: build_eval path_eval chain_world_def chain_tf_def numeral_2_eq_2)

text \<open>
  Claim C3, as stated (the working directory after the call equals its value before the
  call) does not hold: called in \<^verbatim>\<open>/\<close> for the root \<^verbatim>\<open>r\<close>, which declares \<^verbatim>\<open>../m\<close>, the
  builder returns with the process in \<^verbatim>\<open>/r\<close>.
\<close>

theorem build_dependency_dict_moves_cwd:
  "\<exists>st. build_dependency_dict chain_world 2 ''/'' [''r''] ''/'' = Inr st \<and> cwd st \<noteq> ''/''"
  using chain_world_build by auto

theorem build_dependency_dict_leaves_cwd_witness:
  "\<exists>st. build_dependency_dict chain_world 2 ''/'' [''r''] ''/'' = Inr st \<and>
     cwd st = ''/r'' \<and> isdir chain_world (cwd st)"
proof -
  from chain_world_build obtain st
    where st: "build_dependency_dict chain_world 2 ''/'' [''r''] ''/'' = Inr st" "cwd st = ''/r''"
    by blast
  from build_dependency_dict_leaves_cwd[OF st(1)] st show ?thesis by blast
qed

subsection \<open>Re-running\<close>

lemma chdir_isabs: "isabs p \<Longrightarrow> chdir w c1 p = chdir w c2 p"
  by (simp add: chdir_def abspath_def)

text \<open>
  Claim C8, amended: for an absolute \<open>start_dir\<close>, the result of
  \<^verbatim>\<open>build_dependency_dict\<close> does not depend on the working directory the process is in
  when it is called, which is all that a previous run leaves behind (the map and the cache
  are created anew by every call): run again on the same world, from wherever the first
  run left the process, it returns the same map, or raises the same exception.
\<close>

theorem build_dependency_dict_rerun:
  assumes "isabs start_dir"
  shows "build_dependency_dict w n cwd' roots start_dir =
         build_dependency_dict w n cwd0 roots start_dir"
  by (simp add: build_dependency_dict_def chdir_isabs[OF assms, of w cwd' cwd0])

theorem build_dependency_dict_rerun_witness:
  "isabs ''/'' \<and>
   (\<exists>st. build_dependency_dict chain_world 2 ''/'' [''r''] ''/'' = Inr st \<and> cwd st = ''/r'' \<and>
      build_dependency_dict chain_world 2 (cwd st) [''r''] ''/'' = Inr st)"
proof -
  have abs: "isabs ''/''" by (simp add: isabs_def)
  from chain_world_build obtain st
    where st: "build_dependency_dict chain_world 2 ''/'' [''r''] ''/'' = Inr st" "cwd st = ''/r''"
    by blast
  from build_dependency_dict_rerun[OF abs, of chain_world 2 "cwd st" "[''r'']" "''/''"] st
  have "build_dependency_dict chain_world 2 (cwd st) [''r''] ''/'' = Inr st" by simp
  with abs st show ?thesis by blast
qed

text \<open>
  Claim C8, as stated (for every start directory) does not hold when \<open>start_dir\<close> is
  relative: with \<^verbatim>\<open>.\<close> as start directory, the first run, called in \<^verbatim>\<open>/\<close>, returns a map
  and leaves the process in \<^verbatim>\<open>/r\<close>; the second run resolves the root \<^verbatim>\<open>r\<close> against that
  directory and raises.
\<close>

theorem build_dependency_dict_rerun_relative:
  "\<exists>st. build_dependency_dict chain_world 2 ''/'' [''r''] ''.'' = Inr st \<and>
     build_dependency_dict chain_world 2 (cwd st) [''r''] ''.'' = Inl NotADirectory"
  by (simp add: build_eval path_eval chain_world_def chain_tf_def numeral_2_eq_2)



subsection \<open>A module block with no source\<close>

text \<open>
  Claim C9: when the first module block of the first declaration file of the first root
  has no \<^verbatim>\<open>source\<close> attribute (and the text of the file holds \<^verbatim>\<open>source\<close> followed by a
  blank, so that it is parsed), \<^verbatim>\<open>extract_sources\<close> returns a list that holds \<open>None\<close>, and
  \<^verbatim>\<open>build_dependency_dict\<close> raises \<open>TypeError\<close> on it.
\<close>

theorem missing_source_raises_TypeError:
  assumes "chdir w cwd0 start_dir = Inr c"
    and "chdir w c start_dir = Inr c'"
    and "get_tf_files w (abspath c' root) = Inr (f # files)"
    and "readfile w (path_join (abspath c' root) f) = Some data"
    and "str_contains ''source '' data"
    and "hcl2_loads w data = Some tf_dict"
    and "tf_get_module tf_dict = ((name, module_dict) # m) # ms"
    and "map_of module_dict ''source'' = None"
  shows "(\<exists>sources. extract_sources w (path_join (abspath c' root) f) = Inr (None # sources)) \<and>
         build_dependency_dict w (Suc n) cwd0 (root # roots) start_dir = Inl TypeError"
proof -
  have ex: "extract_sources w (path_join (abspath c' root) f) =
              Inr (None # tl (module_sources tf_dict))"
    using assms(4-8) by (simp add: extract_sources_def module_sources_def)
  then have "build_dependency_dict w (Suc n) cwd0 (root # roots) start_dir = Inl TypeError"
    using assms(1-3) by (simp add: build_dependency_dict_def)
  with ex show ?thesis by blast
qed

theorem missing_source_raises_TypeError_witness:
  "extract_sources no_source_world ''/r/main.tf'' = Inr [None, Some ''hashicorp/consul/aws''] \<and>
   build_dependency_dict no_source_world 1 ''/'' [''r''] ''/'' = Inl TypeError"
proof -
  have "chdir no_source_world ''/'' ''/'' = Inr ''/''"
    by (simp add: build_eval path_eval no_source_world_def)
  moreover have "get_tf_files no_source_world (abspath ''/'' ''r'') = Inr [''main.tf'']"
    by (simp add: build_eval path_eval no_source_world_def)
  moreover have "readfile no_source_world (path_join (abspath ''/'' ''r'') ''main.tf'') = Some no_source_tf"
    by (simp add: build_eval path_eval no_source_world_def)
  moreover have "str_contains ''source '' no_source_tf"
    by (simp add: no_source_tf_def)
  moreover have "hcl2_loads no_source_world no_source_tf =
      Some [(''module'', [[(''a'', [])], [(''c'', [(''source'', ''hashicorp/consul/aws'')])]])]"
    by (simp add: no_source_world_def)
  moreover have "tf_get_module [(''module'', [[(''a'', [])], [(''c'', [(''source'', ''hashicorp/consul/aws'')])]])]
      = ((''a'', []) # []) # [[(''c'', [(''source'', ''hashicorp/consul/aws'')])]]"
    by (simp add: tf_get_module_def)
  moreover have "map_of ([] :: module_dict) ''source'' = None" by simp
  ultimately have "build_dependency_dict no_source_world (Suc 0) ''/'' (''r'' # []) ''/'' = Inl TypeError"
    using missing_source_raises_TypeError[of no_source_world "''/''" "''/''" "''/''" "''/''" "''r''"
        "''main.tf''" "[]" no_source_tf _ "''a''" "[]" "[]" _ 0 "[]"]
    by blast
  moreover have "extract_sources no_source_world ''/r/main.tf'' = Inr [None, Some ''hashicorp/consul/aws'']"
    by (simp add: build_eval no_source_world_def no_source_tf_def)
  ultimately show ?thesis by simp
qed

subsection \<open>The short cut of extract_sources\<close>

text \<open>
  Claim C6 fails on a declaration written \<^verbatim>\<open>source="../m"\<close>, with no blank after
  \<^verbatim>\<open>source\<close>: the short cut of \<^verbatim>\<open>extract_sources\<close> returns no source, where parsing the file
  yields \<^verbatim>\<open>../m\<close>.
\<close>

theorem extract_sources_skips_tight_source:
  "extract_sources tight_world ''/r/main.tf'' = Inr [] \<and>
   extract_sources_full tight_world ''/r/main.tf'' = Inr [Some ''../m'']"
  by (simp add: extract_sources_def extract_sources_full_def module_sources_def tf_get_module_def
      tight_world_def tight_tf_def)

subsection \<open>Counterexamples\<close>

lemma cycle_world_recursion:
  "set (lru st) \<inter> {''/a'', ''/b''} = {} \<Longrightarrow>
   find_deps_for_dir cycle_world ''/'' n ''/a'' st = Inl RecursionError \<and>
   find_deps_for_dir cycle_world ''/'' n ''/b'' st = Inl RecursionError"
proof (induction n arbitrary: st)
  case 0
  then show ?case by simp
next
  case (Suc k)
  then show ?case
    by (simp add: build_eval path_eval cycle_world_def cycle_tf_a_def cycle_tf_b_def)
qed

text \<open>
  Claim C1, as stated (the builder returns on a cyclic module graph) does not hold: the
  cache of \<^verbatim>\<open>find_deps_for_dir\<close> holds a directory only once its expansion has returned,
  so two directories that declare each other are expanded in turn until the recursion
  limit is reached, whatever that limit is.
\<close>

theorem build_dependency_dict_cycle_never_returns:
  "\<not> (\<exists>n st. build_dependency_dict cycle_world n ''/'' [''a''] ''/'' = Inr st)"
proof -
  have "build_dependency_dict cycle_world n ''/'' [''a''] ''/'' = Inl RecursionError" for n
  proof -
    have "chdir cycle_world ''/'' ''/'' = Inr ''/''" "abspath ''/'' ''a'' = ''/a''"
      by (simp_all add: build_eval path_eval cycle_world_def)
    then show ?thesis
      by (simp add: build_dependency_dict_def cycle_world_recursion)
  qed
  then show ?thesis by simp
qed


text \<open>
  Claim C7, as stated (an edge if and only if the source begins with \<^verbatim>\<open>./\<close> or \<^verbatim>\<open>../\<close>)
  does not hold: the source \<^verbatim>\<open>m/./v\<close> begins with neither and is recorded as an edge.
\<close>

theorem inner_dot_source_records_edge:
  "\<not> prefix ''./'' ''m/./v'' \<and> \<not> prefix ''../'' ''m/./v'' \<and>
   extract_sources inner_dot_world ''/r/main.tf'' = Inr [Some ''m/./v''] \<and>
   (\<exists>st. build_dependency_dict inner_dot_world 2 ''/'' [''r''] ''/'' = Inr st \<and>
      dependents st ''r/m/v'' = Some {''r''})"
  by (simp add: build_eval path_eval inner_dot_world_def inner_dot_tf_def numeral_2_eq_2)

subsection \<open>Edges are kept\<close>

lemma has_edge_add:
  "has_edge (st\<lparr>cwd := c, dependents := add_dependent (dependents st) key v\<rparr>) key' v' \<longleftrightarrow>
   (key' = key \<and> v' = v) \<or> has_edge st key' v'"
  by (auto simp: has_edge_def add_dependent_def split: option.splits)

lemma for_sources_keeps_edges:
  assumes "\<And>d s s'. rec d s = Inr s' \<Longrightarrow> has_edge s key v \<Longrightarrow> has_edge s' key v"
    and "for_sources w start_dir rec tf_dir sources st = Inr st'"
    and "has_edge st key v"
  shows "has_edge st' key v"
  using assms(2,3)
proof (induction sources arbitrary: st)
  case Nil
  then show ?case by simp
next
  case (Cons source sources)
  show ?case
  proof (cases "\<exists>src. source = Some src \<and> str_contains ''./'' src")
    case False
    with Cons show ?thesis by (auto split: option.splits)
  next
    case True
    then obtain src where src: "source = Some src" "str_contains ''./'' src" by blast
    with Cons.prems(1) obtain c m ch s1
      where s1: "rec (abspath c src) (st\<lparr>cwd := c, dependents := add_dependent (dependents st) m ch\<rparr>) = Inr s1"
        and rest: "for_sources w start_dir rec tf_dir sources s1 = Inr st'"
      by (auto split: sum.splits)
    from Cons.prems(2) have "has_edge (st\<lparr>cwd := c, dependents := add_dependent (dependents st) m ch\<rparr>) key v"
      by (simp add: has_edge_add)
    with assms(1)[OF s1] have "has_edge s1 key v" .
    with Cons.IH[OF rest] show ?thesis .
  qed
qed

lemma for_files_keeps_edges:
  assumes "\<And>d s s'. rec d s = Inr s' \<Longrightarrow> has_edge s key v \<Longrightarrow> has_edge s' key v"
    and "for_files w start_dir rec tf_dir files st = Inr st'"
    and "has_edge st key v"
  shows "has_edge st' key v"
  using assms(2,3)
proof (induction files arbitrary: st)
  case Nil
  then show ?case by simp
next
  case (Cons f files)
  from Cons.prems(1) obtain sources s1
    where s1: "for_sources w start_dir rec tf_dir sources st = Inr s1"
      and rest: "for_files w start_dir rec tf_dir files s1 = Inr st'"
    by (auto split: sum.splits)
  from for_sources_keeps_edges[OF assms(1) s1 Cons.prems(2)] have "has_edge s1 key v" by simp
  with Cons.IH[OF rest] show ?case .
qed

lemma find_deps_for_dir_keeps_edges:
  "find_deps_for_dir w start_dir n tf_dir st = Inr st' \<Longrightarrow> has_edge st key v \<Longrightarrow> has_edge st' key v"
proof (induction n arbitrary: tf_dir st st')
  case 0
  then show ?case by (auto simp: has_edge_def split: if_splits)
next
  case (Suc k)
  show ?case
  proof (cases "tf_dir \<in> set (lru st)")
    case True
    with Suc.prems show ?thesis by (auto simp: has_edge_def)
  next
    case False
    with Suc.prems(1) obtain files s1
      where s1: "for_files w start_dir (\<lambda>d s. find_deps_for_dir w start_dir k d s) tf_dir files st = Inr s1"
        and st': "st' = s1\<lparr>lru := lru_store (lru s1) tf_dir\<rparr>"
      by (auto split: sum.splits)
    have "has_edge s1 key v"
      by (rule for_files_keeps_edges[OF _ s1 Suc.prems(2)]) (rule Suc.IH)
    with st' show ?thesis by (simp add: has_edge_def)
  qed
qed

lemma prefix_str_contains: "prefix sub s \<Longrightarrow> str_contains sub s"
  by (cases s) auto

text \<open>
  Claim C7, amended: a declared source is recorded as an edge if and only if it has
  \<^verbatim>\<open>./\<close> somewhere in it. A source without it is skipped: the loop goes on with the next
  source in the same state, with no edge and no expansion. For a source with it, whenever
  the loop returns, the state it returns has the edge from the identity of the resolved
  module to the identity of the declaring directory. Every source that begins with \<^verbatim>\<open>./\<close>
  or \<^verbatim>\<open>../\<close> is such a source; the registry source \<^verbatim>\<open>hashicorp/consul/aws\<close> is not.
\<close>

theorem edge_iff_source_contains_dot_slash:
  "(\<not> str_contains ''./'' src \<longrightarrow>
      for_sources w start_dir (\<lambda>d s. find_deps_for_dir w start_dir k d s) tf_dir (Some src # sources) st =
      for_sources w start_dir (\<lambda>d s. find_deps_for_dir w start_dir k d s) tf_dir sources st) \<and>
   (str_contains ''./'' src \<longrightarrow>
      (\<forall>st'. for_sources w start_dir (\<lambda>d s. find_deps_for_dir w start_dir k d s) tf_dir
               (Some src # sources) st = Inr st' \<longrightarrow>
         (\<exists>c rel_mod_path rel_child_path.
            chdir w (cwd st) tf_dir = Inr c \<and>
            relpath c (abspath c src) start_dir = Inr rel_mod_path \<and>
            relpath c tf_dir start_dir = Inr rel_child_path \<and>
            has_edge st' rel_mod_path rel_child_path))) \<and>
   (prefix ''./'' src \<or> prefix ''../'' src \<longrightarrow> str_contains ''./'' src) \<and>
   \<not> str_contains ''./'' ''hashicorp/consul/aws''"
proof (intro conjI impI allI)
  assume "\<not> str_contains ''./'' src"
  then show "for_sources w start_dir (\<lambda>d s. find_deps_for_dir w start_dir k d s) tf_dir (Some src # sources) st =
      for_sources w start_dir (\<lambda>d s. find_deps_for_dir w start_dir k d s) tf_dir sources st"
    by simp
next
  fix st'
  assume src: "str_contains ''./'' src"
    and run: "for_sources w start_dir (\<lambda>d s. find_deps_for_dir w start_dir k d s) tf_dir
               (Some src # sources) st = Inr st'"
  from run src obtain c m ch s1
    where c: "chdir w (cwd st) tf_dir = Inr c"
      and m: "relpath c (abspath c src) start_dir = Inr m"
      and ch: "relpath c tf_dir start_dir = Inr ch"
      and s1: "find_deps_for_dir w start_dir k (abspath c src)
                 (st\<lparr>cwd := c, dependents := add_dependent (dependents st) m ch\<rparr>) = Inr s1"
      and rest: "for_sources w start_dir (\<lambda>d s. find_deps_for_dir w start_dir k d s) tf_dir sources s1 = Inr st'"
    by (auto split: sum.splits)
  have "has_edge (st\<lparr>cwd := c, dependents := add_dependent (dependents st) m ch\<rparr>) m ch"
    by (simp add: has_edge_add)
  with find_deps_for_dir_keeps_edges[OF s1] have "has_edge s1 m ch" .
  then have "has_edge st' m ch"
    by (rule for_sources_keeps_edges[OF _ rest, rotated]) (rule find_deps_for_dir_keeps_edges)
  with c m ch show "\<exists>c rel_mod_path rel_child_path.
            chdir w (cwd st) tf_dir = Inr c \<and>
            relpath c (abspath c src) start_dir = Inr rel_mod_path \<and>
            relpath c tf_dir start_dir = Inr rel_child_path \<and>
            has_edge st' rel_mod_path rel_child_path"
    by blast
next
  assume "prefix ''./'' src \<or> prefix ''../'' src"
  then show "str_contains ''./'' src"
  proof
    assume "prefix ''./'' src"
    then show ?thesis by (rule prefix_str_contains)
  next
    assume "prefix ''../'' src"
    then obtain r where "src = CHR ''.'' # ''./'' @ r" by (auto simp: prefix_def)
    then show ?thesis by simp
  qed
next
  show "\<not> str_contains ''./'' ''hashicorp/consul/aws''" by simp
qed



theorem edge_iff_source_contains_dot_slash_witness:
  "str_contains ''./'' ''../m'' \<and>
   (\<exists>st'. for_sources chain_world ''/'' (\<lambda>d s. find_deps_for_dir chain_world ''/'' 1 d s) ''/r''
             [Some ''../m''] \<lparr>dependents = Map.empty, lru = [], cwd = ''/''\<rparr> = Inr st' \<and>
           has_edge st' ''m'' ''r'') \<and>
   (\<exists>st. build_dependency_dict registry_world 1 ''/'' [''r''] ''/'' = Inr st \<and>
          dom (dependents st) = {})"
proof -
  have reg: "\<exists>st. build_dependency_dict registry_world 1 ''/'' [''r''] ''/'' = Inr st \<and>
          dom (dependents st) = {}"
    by (simp add: build_eval path_eval registry_world_def registry_tf_def)
  let ?st = "\<lparr>dependents = Map.empty, lru = [], cwd = ''/''\<rparr>"
  have src: "str_contains ''./'' ''../m''" by simp
  have "\<exists>st'. for_sources chain_world ''/'' (\<lambda>d s. find_deps_for_dir chain_world ''/'' 1 d s) ''/r''
             [Some ''../m''] ?st = Inr st'"
    by (simp add: build_eval path_eval chain_world_def)
  then obtain st' where run: "for_sources chain_world ''/''
      (\<lambda>d s. find_deps_for_dir chain_world ''/'' 1 d s) ''/r'' [Some ''../m''] ?st = Inr st'"
    by blast
  have c: "chdir chain_world (cwd ?st) ''/r'' = Inr ''/r''"
    by (simp add: build_eval path_eval chain_world_def)
  have m: "relpath ''/r'' (abspath ''/r'' ''../m'') ''/'' = Inr ''m''"
    by (simp add: path_eval)
  have ch: "relpath ''/r'' ''/r'' ''/'' = Inr ''r''"
    by (simp add: path_eval)
  from edge_iff_source_contains_dot_slash[of "''../m''" chain_world "''/''" 1 "''/r''" "[]" ?st]
    src run c m ch
  have "has_edge st' ''m'' ''r''" by auto
  with src run reg show ?thesis by blast
qed

subsection \<open>A bad file aborts the scan\<close>

lemma set_lru_store: "set (lru_store cache key) \<subseteq> insert key (set cache)"
  by (auto simp: lru_store_def dest: in_set_butlastD)









subsection \<open>Absolute paths\<close>

lemma normpath_isabs: "isabs p \<Longrightarrow> isabs (normpath p)"
  by (auto simp: isabs_def normpath_def Let_def prefix_def numeral_2_eq_2)

lemma abspath_isabs: "isabs c \<Longrightarrow> isabs (abspath c p)"
  by (auto simp: abspath_def path_join_def intro!: normpath_isabs)
    (auto simp: isabs_def prefix_def)

lemma chdir_keeps_isabs: "chdir w cw p = Inr c \<Longrightarrow> isabs cw \<Longrightarrow> isabs c"
  by (auto simp: chdir_def abspath_isabs split: if_splits)

lemma chdir_to_isabs: "isabs d \<Longrightarrow> chdir w cw d = Inr c \<Longrightarrow> c = normpath d"
  by (auto simp: chdir_def abspath_def split: if_splits)

lemma chdir_error: "chdir w cw p \<noteq> Inl RecursionError"
  by (simp add: chdir_def)

lemma relpath_error: "relpath c p s \<noteq> Inl RecursionError"
  by (simp add: relpath_def Let_def split: list.splits)

lemma extract_sources_error: "extract_sources w p \<noteq> Inl RecursionError"
  by (simp add: extract_sources_def split: option.splits)

lemma get_tf_files_error: "get_tf_files w p \<noteq> Inl RecursionError"
  by (simp add: get_tf_files_def split: option.splits)

subsection \<open>normpath is idempotent on absolute paths\<close>

lemma str_split_nonempty: "str_split c s \<noteq> []"
  by (induction s) (auto split: list.splits)

lemma str_split_no_sep: "w \<in> set (str_split c s) \<Longrightarrow> c \<notin> set w"
proof (induction s arbitrary: w)
  case Nil
  then show ?case by simp
next
  case (Cons x s)
  then show ?case
    by (cases "str_split c s") (auto split: if_splits)
qed

lemma str_split_word: "c \<notin> set w \<Longrightarrow> str_split c w = [w]"
  by (induction w) auto

lemma str_split_append: "c \<notin> set w \<Longrightarrow> str_split c (w @ c # rest) = w # str_split c rest"
  by (induction w) (auto split: list.splits)

lemma str_split_join:
  "ws \<noteq> [] \<Longrightarrow> \<forall>w\<in>set ws. c \<notin> set w \<Longrightarrow> str_split c (str_join [c] ws) = ws"
proof (induction ws)
  case Nil
  then show ?case by simp
next
  case outer: (Cons w ws)
  show ?case
  proof (cases ws)
    case Nil
    with outer.prems show ?thesis by (simp add: str_split_word)
  next
    case (Cons v vs)
    with outer.IH outer.prems have "str_split c (str_join [c] ws) = ws" by simp
    with Cons outer.prems show ?thesis by (simp add: str_split_append)
  qed
qed

lemma norm_comps_clean:
  "0 < sl \<Longrightarrow> clean_comps new \<Longrightarrow> \<forall>w\<in>set comps. CHR ''/'' \<notin> set w \<Longrightarrow>
   clean_comps (norm_comps sl new comps)"
proof (induction comps arbitrary: new)
  case Nil
  then show ?case by simp
next
  case (Cons w comps)
  from Cons.prems(3) have rest: "\<forall>w\<in>set comps. CHR ''/'' \<notin> set w" by simp
  have IH: "clean_comps (norm_comps sl n comps)" if "clean_comps n" for n
    using Cons.IH[OF Cons.prems(1) that rest] .
  from Cons.prems(1) have sl: "sl \<noteq> 0" by simp
  consider (skip) "w = [] \<or> w = ''.''"
    | (up) "w \<noteq> []" "w \<noteq> ''.''" "w = ''..''"
    | (app) "w \<noteq> []" "w \<noteq> ''.''" "w \<noteq> ''..''"
    by blast
  then show ?case
  proof cases
    case skip
    then have "norm_comps sl new (w # comps) = norm_comps sl new comps" by auto
    with IH[OF Cons.prems(2)] show ?thesis by (simp only:)
  next
    case up
    have l: "new \<noteq> [] \<Longrightarrow> last new \<noteq> ''..''"
      using Cons.prems(2) last_in_set[of new] by (auto simp: clean_comps_def)
    have b: "clean_comps (butlast new)"
      using Cons.prems(2) by (auto simp: clean_comps_def dest: in_set_butlastD)
    show ?thesis
    proof (cases "new = []")
      case True
      with up sl have "norm_comps sl new (w # comps) = norm_comps sl new comps" by simp
      with IH[OF Cons.prems(2)] show ?thesis by (simp only:)
    next
      case False
      with up sl l have "norm_comps sl new (w # comps) = norm_comps sl (butlast new) comps"
        by simp
      with IH[OF b] show ?thesis by (simp only:)
    qed
  next
    case app
    then have "norm_comps sl new (w # comps) = norm_comps sl (new @ [w]) comps" by simp
    moreover have "clean_comps (new @ [w])"
      using app Cons.prems(2,3) by (auto simp: clean_comps_def)
    ultimately show ?thesis using IH by (simp only:)
  qed
qed

lemma norm_comps_of_clean:
  "0 < sl \<Longrightarrow> clean_comps ws \<Longrightarrow> clean_comps new \<Longrightarrow> norm_comps sl new ws = new @ ws"
proof (induction ws arbitrary: new)
  case Nil
  then show ?case by simp
next
  case (Cons w ws)
  from Cons.prems have w: "w \<noteq> []" "w \<noteq> ''.''" "w \<noteq> ''..''" and ws: "clean_comps ws"
    and nw: "clean_comps (new @ [w])"
    by (auto simp: clean_comps_def)
  from Cons.IH[OF Cons.prems(1) ws nw] w show ?case by simp
qed

lemma norm_comps_skip_empty: "norm_comps sl new ([] # ws) = norm_comps sl new ws"
  by simp

lemma str_join_clean_hd:
  "clean_comps ws \<Longrightarrow> \<not> prefix ''/'' (str_join ''/'' ws)"
proof (cases ws)
  case Nil
  then show ?thesis by simp
next
  case (Cons w ws')
  assume "clean_comps ws"
  with Cons obtain x xs where w: "w = x # xs" "x \<noteq> CHR ''/''"
    by (cases w) (auto simp: clean_comps_def)
  with Cons show ?thesis by (cases ws') auto
qed

lemma normpath_absolute:
  assumes "sl = 1 \<or> sl = 2" and "\<not> prefix ''/'' j"
  shows "normpath (replicate sl CHR ''/'' @ j) =
     (let comps = norm_comps sl [] (str_split CHR ''/'' (replicate sl CHR ''/'' @ j))
      in replicate sl CHR ''/'' @ str_join ''/'' comps)"
  using assms(1)
proof
  assume sl: "sl = 1"
  from assms(2) have "\<not> prefix ''//'' (CHR ''/'' # j)" by simp
  then show ?thesis
    unfolding sl by (simp add: normpath_def Let_def del: str_split.simps norm_comps.simps)
next
  assume sl: "sl = 2"
  from assms(2) have "\<not> prefix ''///'' (CHR ''/'' # CHR ''/'' # j)" by simp
  then show ?thesis
    unfolding sl
    by (simp add: normpath_def Let_def numeral_2_eq_2 del: str_split.simps norm_comps.simps)
qed

lemma str_split_slashes:
  "sl = 1 \<or> sl = (2::nat) \<Longrightarrow>
   norm_comps sl [] (str_split CHR ''/'' (replicate sl CHR ''/'' @ j)) =
   norm_comps sl [] (str_split CHR ''/'' j)"
  by (auto simp: numeral_2_eq_2)

lemma normpath_of_clean:
  assumes "clean_comps ws" and "sl = 1 \<or> sl = 2"
  shows "normpath (replicate sl CHR ''/'' @ str_join ''/'' ws) =
           replicate sl CHR ''/'' @ str_join ''/'' ws"
proof -
  let ?j = "str_join ''/'' ws"
  from str_join_clean_hd[OF assms(1)] have nj: "\<not> prefix ''/'' ?j" .
  have pos: "0 < sl" using assms(2) by auto
  have "norm_comps sl [] (str_split CHR ''/'' ?j) = ws"
  proof (cases "ws = []")
    case True
    then show ?thesis by simp
  next
    case False
    with assms(1) have "str_split CHR ''/'' ?j = ws"
      by (intro str_split_join) (auto simp: clean_comps_def)
    moreover have "norm_comps sl [] ws = [] @ ws"
      by (rule norm_comps_of_clean[OF pos assms(1)]) (simp add: clean_comps_def)
    ultimately show ?thesis by simp
  qed
  with str_split_slashes[OF assms(2), of ?j]
  have "norm_comps sl [] (str_split CHR ''/'' (replicate sl CHR ''/'' @ ?j)) = ws"
    by (simp only:)
  with normpath_absolute[OF assms(2) nj] show ?thesis by (simp only: Let_def)
qed

lemma normpath_shape:
  assumes "isabs p"
  shows "\<exists>sl ws. (sl = 1 \<or> sl = 2) \<and> clean_comps ws \<and>
           normpath p = replicate sl CHR ''/'' @ str_join ''/'' ws"
proof -
  from assms have ne: "p \<noteq> []" and pre: "prefix ''/'' p" by (auto simp: isabs_def)
  let ?sl = "if prefix ''//'' p \<and> \<not> prefix ''///'' p then 2 else (1::nat)"
  let ?ws = "norm_comps ?sl [] (str_split CHR ''/'' p)"
  have "clean_comps ?ws"
    by (rule norm_comps_clean) (auto simp: clean_comps_def dest: str_split_no_sep)
  moreover have "replicate ?sl CHR ''/'' @ str_join ''/'' ?ws \<noteq> []" by auto
  then have "normpath p = replicate ?sl CHR ''/'' @ str_join ''/'' ?ws"
    using ne pre by (simp add: normpath_def Let_def del: replicate.simps)
  moreover have "?sl = 1 \<or> ?sl = 2" by simp
  ultimately show ?thesis by blast
qed

lemma normpath_idem:
  assumes "isabs p"
  shows "normpath (normpath p) = normpath p"
proof -
  from normpath_shape[OF assms] obtain sl ws
    where sl: "sl = 1 \<or> sl = 2" and ws: "clean_comps ws"
      and p: "normpath p = replicate sl CHR ''/'' @ str_join ''/'' ws"
    by blast
  from normpath_of_clean[OF ws sl] show ?thesis by (simp only: p)
qed

lemma abspath_canonical: "isabs c \<Longrightarrow> canonical (abspath c p)"
proof -
  assume c: "isabs c"
  have a: "isabs (if isabs p then p else path_join c p)"
    using c by (auto simp: path_join_def isabs_def prefix_def)
  then show ?thesis
    by (simp add: canonical_def abspath_def normpath_idem normpath_isabs)
qed

subsection \<open>A deeper recursion limit changes no result but RecursionError\<close>

lemma for_sources_fuel:
  assumes "\<And>d s. rec d s \<noteq> Inl RecursionError \<Longrightarrow> rec' d s = rec d s"
    and "for_sources w start_dir rec tf_dir sources st \<noteq> Inl RecursionError"
  shows "for_sources w start_dir rec' tf_dir sources st = for_sources w start_dir rec tf_dir sources st"
  using assms(2)
proof (induction sources arbitrary: st)
  case Nil
  then show ?case by simp
next
  case (Cons source sources)
  show ?case
  proof (cases "\<exists>src. source = Some src \<and> str_contains ''./'' src")
    case False
    with Cons show ?thesis by (auto split: option.splits)
  next
    case True
    then obtain src where src: "source = Some src" "str_contains ''./'' src" by blast
    show ?thesis
    proof (cases "chdir w (cwd st) tf_dir")
      case (Inl e)
      with src show ?thesis by simp
    next
      case c: (Inr c)
      show ?thesis
      proof (cases "relpath c (abspath c src) start_dir")
        case (Inl e)
        with src c show ?thesis by simp
      next
        case m: (Inr m)
        show ?thesis
        proof (cases "relpath c tf_dir start_dir")
          case (Inl e)
          with src c m show ?thesis by simp
        next
          case ch: (Inr ch)
          let ?s = "st\<lparr>cwd := c, dependents := add_dependent (dependents st) m ch\<rparr>"
          from Cons.prems src c m ch have "rec (abspath c src) ?s \<noteq> Inl RecursionError"
            by (auto split: sum.splits)
          then have eq: "rec' (abspath c src) ?s = rec (abspath c src) ?s" by (rule assms(1))
          show ?thesis
          proof (cases "rec (abspath c src) ?s")
            case (Inl e)
            with src c m ch eq show ?thesis by simp
          next
            case (Inr s1)
            with Cons.prems src c m ch
            have "for_sources w start_dir rec tf_dir sources s1 \<noteq> Inl RecursionError" by simp
            from Cons.IH[OF this] src c m ch eq Inr show ?thesis by simp
          qed
        qed
      qed
    qed
  qed
qed

lemma for_files_fuel:
  assumes "\<And>d s. rec d s \<noteq> Inl RecursionError \<Longrightarrow> rec' d s = rec d s"
    and "for_files w start_dir rec tf_dir files st \<noteq> Inl RecursionError"
  shows "for_files w start_dir rec' tf_dir files st = for_files w start_dir rec tf_dir files st"
  using assms(2)
proof (induction files arbitrary: st)
  case Nil
  then show ?case by simp
next
  case (Cons f files)
  show ?case
  proof (cases "extract_sources w (path_join tf_dir f)")
    case (Inl e)
    then show ?thesis by simp
  next
    case srcs: (Inr sources)
    from Cons.prems srcs have "for_sources w start_dir rec tf_dir sources st \<noteq> Inl RecursionError"
      by (auto split: sum.splits)
    from for_sources_fuel[of rec rec', OF assms(1) this]
    have eq: "for_sources w start_dir rec' tf_dir sources st =
              for_sources w start_dir rec tf_dir sources st" by simp
    show ?thesis
    proof (cases "for_sources w start_dir rec tf_dir sources st")
      case (Inl e)
      with srcs eq show ?thesis by simp
    next
      case (Inr s1)
      with Cons.prems srcs have "for_files w start_dir rec tf_dir files s1 \<noteq> Inl RecursionError"
        by simp
      from Cons.IH[OF this] srcs eq Inr show ?thesis by simp
    qed
  qed
qed

lemma find_deps_for_dir_Suc:
  "find_deps_for_dir w start_dir n tf_dir st \<noteq> Inl RecursionError \<Longrightarrow>
   find_deps_for_dir w start_dir (Suc n) tf_dir st = find_deps_for_dir w start_dir n tf_dir st"
proof (induction n arbitrary: tf_dir st)
  case 0
  then show ?case by (auto split: if_splits)
next
  case (Suc k)
  show ?case
  proof (cases "tf_dir \<in> set (lru st)")
    case True
    then show ?thesis by simp
  next
    case miss: False
    show ?thesis
    proof (cases "get_tf_files w tf_dir")
      case (Inl e)
      with miss show ?thesis by simp
    next
      case (Inr files)
      with Suc.prems miss
      have "for_files w start_dir (\<lambda>d s. find_deps_for_dir w start_dir k d s) tf_dir files st
              \<noteq> Inl RecursionError"
        by (auto split: sum.splits)
      then have eq: "for_files w start_dir (\<lambda>d s. find_deps_for_dir w start_dir (Suc k) d s) tf_dir files st =
            for_files w start_dir (\<lambda>d s. find_deps_for_dir w start_dir k d s) tf_dir files st"
        by (rule for_files_fuel[rotated]) (rule Suc.IH)
      have "find_deps_for_dir w start_dir (Suc (Suc k)) tf_dir st =
            (case for_files w start_dir (\<lambda>d s. find_deps_for_dir w start_dir (Suc k) d s) tf_dir files st of
               Inl e \<Rightarrow> Inl e
             | Inr st' \<Rightarrow> Inr (st'\<lparr>lru := lru_store (lru st') tf_dir\<rparr>))"
        by (simp only: find_deps_for_dir.simps(2)[of _ _ "Suc k"] miss Inr if_False sum.case)
      moreover have "find_deps_for_dir w start_dir (Suc k) tf_dir st =
            (case for_files w start_dir (\<lambda>d s. find_deps_for_dir w start_dir k d s) tf_dir files st of
               Inl e \<Rightarrow> Inl e
             | Inr st' \<Rightarrow> Inr (st'\<lparr>lru := lru_store (lru st') tf_dir\<rparr>))"
        by (simp only: find_deps_for_dir.simps(2)[of _ _ k] miss Inr if_False sum.case)
      ultimately show ?thesis by (simp only: eq)
    qed
  qed
qed

lemma find_deps_for_dir_le:
  assumes "n \<le> n'" and "find_deps_for_dir w start_dir n tf_dir st \<noteq> Inl RecursionError"
  shows "find_deps_for_dir w start_dir n' tf_dir st = find_deps_for_dir w start_dir n tf_dir st"
  using assms
proof (induction rule: dec_induct)
  case base
  show ?case ..
next
  case (step k)
  then have "find_deps_for_dir w start_dir k tf_dir st = find_deps_for_dir w start_dir n tf_dir st"
    by blast
  with step.prems find_deps_for_dir_Suc[of w start_dir k tf_dir st] show ?case
    by (simp del: find_deps_for_dir.simps)
qed



subsection \<open>No RecursionError on a well-founded module graph\<close>

lemma for_sources_no_recursion_error:
  assumes "isabs tf_dir"
    and "\<And>src s. src \<in> set (followed sources) \<Longrightarrow>
           rec (abspath (normpath tf_dir) src) s \<noteq> Inl RecursionError"
  shows "for_sources w start_dir rec tf_dir sources st \<noteq> Inl RecursionError"
  using assms(2)
proof (induction sources arbitrary: st)
  case Nil
  then show ?case by simp
next
  case (Cons source sources)
  have rest: "for_sources w start_dir rec tf_dir sources s \<noteq> Inl RecursionError" for s
    by (rule Cons.IH) (use Cons.prems in \<open>auto simp: followed_def\<close>)
  show ?case
  proof (cases "\<exists>src. source = Some src \<and> str_contains ''./'' src")
    case False
    with rest show ?thesis by (auto split: option.splits)
  next
    case True
    then obtain src where src: "source = Some src" "str_contains ''./'' src" by blast
    then have "src \<in> set (followed (source # sources))" by (simp add: followed_def)
    then have r: "rec (abspath (normpath tf_dir) src) s \<noteq> Inl RecursionError" for s
      by (rule Cons.prems)
    show ?thesis
    proof (cases "chdir w (cwd st) tf_dir")
      case (Inl e)
      with src chdir_error[of w "cwd st" tf_dir] show ?thesis by auto
    next
      case (Inr c)
      with assms(1) have c: "c = normpath tf_dir" by (simp add: chdir_to_isabs)
      with src Inr r rest relpath_error show ?thesis
        by (auto split: sum.splits)
    qed
  qed
qed

lemma for_files_no_recursion_error:
  assumes "isabs tf_dir"
    and "\<And>src s. src \<in> set (concat (map (\<lambda>file.
              case extract_sources w (path_join tf_dir file) of
                Inl e \<Rightarrow> [] | Inr sources \<Rightarrow> followed sources) files)) \<Longrightarrow>
           rec (abspath (normpath tf_dir) src) s \<noteq> Inl RecursionError"
  shows "for_files w start_dir rec tf_dir files st \<noteq> Inl RecursionError"
  using assms(2)
proof (induction files arbitrary: st)
  case Nil
  then show ?case by simp
next
  case (Cons f files)
  have rest: "for_files w start_dir rec tf_dir files s \<noteq> Inl RecursionError" for s
    by (rule Cons.IH) (use Cons.prems in auto)
  show ?case
  proof (cases "extract_sources w (path_join tf_dir f)")
    case (Inl e)
    with extract_sources_error[of w "path_join tf_dir f"] show ?thesis by auto
  next
    case (Inr sources)
    have "for_sources w start_dir rec tf_dir sources st \<noteq> Inl RecursionError"
      by (rule for_sources_no_recursion_error[OF assms(1)]) (use Cons.prems Inr in auto)
    with Inr rest show ?thesis by (auto split: sum.splits)
  qed
qed

lemma uniform_depth:
  assumes "\<And>t. t \<in> set ts \<Longrightarrow>
             \<exists>n. \<forall>s. find_deps_for_dir w start_dir n t s \<noteq> Inl RecursionError"
  shows "\<exists>n. \<forall>t\<in>set ts. \<forall>s. find_deps_for_dir w start_dir n t s \<noteq> Inl RecursionError"
  using assms
proof (induction ts)
  case Nil
  then show ?case by simp
next
  case (Cons t ts)
  from Cons obtain n1
    where n1: "\<forall>t\<in>set ts. \<forall>s. find_deps_for_dir w start_dir n1 t s \<noteq> Inl RecursionError"
    by (meson list.set_intros(2))
  from Cons.prems obtain n2
    where n2: "\<forall>s. find_deps_for_dir w start_dir n2 t s \<noteq> Inl RecursionError"
    by (meson list.set_intros(1))
  have "find_deps_for_dir w start_dir (max n1 n2) t' s \<noteq> Inl RecursionError"
    if "t' \<in> set (t # ts)" for t' s
  proof (cases "t' = t")
    case True
    from n2 have ok: "find_deps_for_dir w start_dir n2 t s \<noteq> Inl RecursionError" by blast
    have "find_deps_for_dir w start_dir (max n1 n2) t s = find_deps_for_dir w start_dir n2 t s"
      by (rule find_deps_for_dir_le[OF _ ok]) simp
    with ok True show ?thesis by (simp del: find_deps_for_dir.simps)
  next
    case False
    with that n1 have ok: "find_deps_for_dir w start_dir n1 t' s \<noteq> Inl RecursionError" by auto
    have "find_deps_for_dir w start_dir (max n1 n2) t' s = find_deps_for_dir w start_dir n1 t' s"
      by (rule find_deps_for_dir_le[OF _ ok]) simp
    with ok show ?thesis by (simp del: find_deps_for_dir.simps)
  qed
  then show ?case by blast
qed

lemma find_deps_for_dir_depth:
  assumes "wf (module_refs w)"
  shows "isabs tf_dir \<Longrightarrow>
         \<exists>n. \<forall>s. find_deps_for_dir w start_dir n tf_dir s \<noteq> Inl RecursionError"
  using assms
proof (induction tf_dir rule: wf_induct_rule)
  case (less d)
  let ?ts = "map (abspath (normpath d)) (relative_sources w d)"
  have "\<exists>n. \<forall>s. find_deps_for_dir w start_dir n t s \<noteq> Inl RecursionError"
    if "t \<in> set ?ts" for t
  proof -
    from that obtain src where src: "src \<in> set (relative_sources w d)"
      and t: "t = abspath (normpath d) src" by auto
    with less.prems have "(t, d) \<in> module_refs w" by (auto simp: module_refs_def)
    moreover from t less.prems have "isabs t" by (simp add: abspath_isabs normpath_isabs)
    ultimately show ?thesis by (rule less.IH)
  qed
  then obtain k
    where k: "\<forall>t\<in>set ?ts. \<forall>s. find_deps_for_dir w start_dir k t s \<noteq> Inl RecursionError"
    using uniform_depth[of ?ts w start_dir] by blast
  have "find_deps_for_dir w start_dir (Suc k) d s \<noteq> Inl RecursionError" for s
  proof (cases "get_tf_files w d")
    case (Inl e)
    with get_tf_files_error[of w d] show ?thesis by auto
  next
    case (Inr files)
    have "for_files w start_dir (\<lambda>d s. find_deps_for_dir w start_dir k d s) d files s
            \<noteq> Inl RecursionError"
    proof (rule for_files_no_recursion_error[OF less.prems])
      fix src s'
      assume "src \<in> set (concat (map (\<lambda>file.
              case extract_sources w (path_join d file) of
                Inl e \<Rightarrow> [] | Inr sources \<Rightarrow> followed sources) files))"
      with Inr have "src \<in> set (relative_sources w d)" by (simp add: relative_sources_def)
      with k show "find_deps_for_dir w start_dir k (abspath (normpath d) src) s' \<noteq> Inl RecursionError"
        by simp
    qed
    with Inr show ?thesis by (auto split: sum.splits)
  qed
  then show ?case by blast
qed

lemma find_deps_for_dir_stable:
  assumes "wf (module_refs w)" and "isabs tf_dir"
  shows "\<exists>n r. r \<noteq> Inl RecursionError \<and> (\<forall>n'\<ge>n. find_deps_for_dir w start_dir n' tf_dir st = r)"
proof -
  from find_deps_for_dir_depth[OF assms] obtain n
    where n: "find_deps_for_dir w start_dir n tf_dir st \<noteq> Inl RecursionError"
    by blast
  then have "\<forall>n'\<ge>n. find_deps_for_dir w start_dir n' tf_dir st =
               find_deps_for_dir w start_dir n tf_dir st"
    by (simp add: find_deps_for_dir_le del: find_deps_for_dir.simps)
  with n show ?thesis by blast
qed

lemma for_roots_stable:
  assumes "wf (module_refs w)"
  shows "isabs (cwd st) \<Longrightarrow>
         \<exists>n r. r \<noteq> Inl RecursionError \<and> (\<forall>n'\<ge>n. for_roots w start_dir n' roots st = r)"
proof (induction roots arbitrary: st)
  case Nil
  have "\<forall>n'\<ge>0. for_roots w start_dir n' [] st = Inr st" by simp
  then show ?case by blast
next
  case (Cons root roots)
  show ?case
  proof (cases "chdir w (cwd st) start_dir")
    case (Inl e)
    then have "\<forall>n'\<ge>0. for_roots w start_dir n' (root # roots) st = Inl e" by simp
    moreover from Inl chdir_error[of w "cwd st" start_dir] have "Inl e \<noteq> (Inl RecursionError :: error + state)"
      by auto
    ultimately show ?thesis by blast
  next
    case c: (Inr c)
    with Cons.prems have absc: "isabs c" by (simp add: chdir_keeps_isabs)
    then have "isabs (abspath c root)" by (rule abspath_isabs)
    from find_deps_for_dir_stable[OF assms this, of start_dir "st\<lparr>cwd := c\<rparr>"] obtain n1 r1
      where r1: "r1 \<noteq> Inl RecursionError"
        and n1: "\<forall>n'\<ge>n1. find_deps_for_dir w start_dir n' (abspath c root) (st\<lparr>cwd := c\<rparr>) = r1"
      by blast
    show ?thesis
    proof (cases r1)
      case (Inl e)
      with c n1 have "\<forall>n'\<ge>n1. for_roots w start_dir n' (root # roots) st = Inl e" by simp
      with r1 Inl show ?thesis by blast
    next
      case (Inr s1)
      with n1 have s1: "find_deps_for_dir w start_dir n1 (abspath c root) (st\<lparr>cwd := c\<rparr>) = Inr s1"
        by simp
      have "isabs (cwd (st\<lparr>cwd := c\<rparr>)) \<Longrightarrow> isabs (cwd s1)"
        by (rule find_deps_for_dir_cwd[of w isabs, OF _ s1]) (rule chdir_keeps_isabs)
      with absc have "isabs (cwd s1)" by simp
      from Cons.IH[OF this] obtain n2 r2
        where r2: "r2 \<noteq> Inl RecursionError"
          and n2: "\<forall>n'\<ge>n2. for_roots w start_dir n' roots s1 = r2"
        by blast
      have "\<forall>n'\<ge>max n1 n2. for_roots w start_dir n' (root # roots) st = r2"
        using c n1 n2 Inr by simp
      with r2 show ?thesis by blast
    qed
  qed
qed

text \<open>
  Claim C1, amended: when the module graph is well-founded (on a finite file system: has
  no cycle) and the process is in a directory given by an absolute path,
  \<^verbatim>\<open>build_dependency_dict\<close> terminates: from some recursion limit on, it gives one and the
  same result, which is not \<open>RecursionError\<close> (it is the dependency map, or the exception
  of a missing directory or of a bad file). A directory that is in the cache, that is,
  whose expansion has returned and is among the 128 most recently used, is not expanded
  again: the call returns at once and only marks it as most recently used.
\<close>

theorem build_dependency_dict_terminates_acyclic:
  assumes "wf (module_refs w)" and "isabs cwd0"
  shows "(\<exists>n r. r \<noteq> Inl RecursionError \<and>
            (\<forall>n'\<ge>n. build_dependency_dict w n' cwd0 roots start_dir = r)) \<and>
         (tf_dir \<in> set (lru st) \<longrightarrow>
            find_deps_for_dir w start_dir k tf_dir st =
              Inr (st\<lparr>lru := tf_dir # remove1 tf_dir (lru st)\<rparr>))"
proof
  show "\<exists>n r. r \<noteq> Inl RecursionError \<and>
            (\<forall>n'\<ge>n. build_dependency_dict w n' cwd0 roots start_dir = r)"
  proof (cases "chdir w cwd0 start_dir")
    case (Inl e)
    then have "\<forall>n'\<ge>0. build_dependency_dict w n' cwd0 roots start_dir = Inl e"
      by (simp add: build_dependency_dict_def)
    moreover from Inl chdir_error[of w cwd0 start_dir]
    have "Inl e \<noteq> (Inl RecursionError :: error + state)" by auto
    ultimately show ?thesis by blast
  next
    case (Inr c)
    with assms(2) have "isabs (cwd \<lparr>dependents = Map.empty, lru = [], cwd = c\<rparr>)"
      by (simp add: chdir_keeps_isabs)
    from for_roots_stable[OF assms(1) this, of start_dir roots] Inr show ?thesis
      by (simp add: build_dependency_dict_def)
  qed
  show "tf_dir \<in> set (lru st) \<longrightarrow>
            find_deps_for_dir w start_dir k tf_dir st =
              Inr (st\<lparr>lru := tf_dir # remove1 tf_dir (lru st)\<rparr>)"
    by (cases k) simp_all
qed



lemma chain_world_refs: "module_refs chain_world \<subseteq> {(''/m'', ''/r'')}"
proof
  fix e assume "e \<in> module_refs chain_world"
  then obtain d src where e: "e = (abspath (normpath d) src, d)"
    and src: "src \<in> set (relative_sources chain_world d)"
    by (auto simp: module_refs_def)
  have "relative_sources chain_world d = (if d = ''/r'' then [''../m''] else [])"
    by (simp add: relative_sources_def followed_def get_tf_files_def extract_sources_def
        module_sources_def tf_get_module_def path_eval chain_world_def chain_tf_def)
  with src have "d = ''/r''" "src = ''../m''" by (auto split: if_splits)
  with e show "e \<in> {(''/m'', ''/r'')}" by (simp add: path_eval)
qed

lemma chain_world_wf: "wf (module_refs chain_world)"
  by (rule wf_subset[OF _ chain_world_refs]) (simp add: wf_insert)

theorem build_dependency_dict_terminates_acyclic_witness:
  "wf (module_refs chain_world) \<and> isabs ''/'' \<and>
   (\<exists>n r. r \<noteq> Inl RecursionError \<and>
      (\<forall>n'\<ge>n. build_dependency_dict chain_world n' ''/'' [''r''] ''/'' = r)) \<and>
   (\<exists>st. build_dependency_dict chain_world 2 ''/'' [''r''] ''/'' = Inr st)"
proof -
  have abs: "isabs ''/''" by (simp add: isabs_def)
  have "\<exists>st. build_dependency_dict chain_world 2 ''/'' [''r''] ''/'' = Inr st"
    by (simp add: build_eval path_eval chain_world_def chain_tf_def numeral_2_eq_2)
  with chain_world_wf abs
    build_dependency_dict_terminates_acyclic[OF chain_world_wf abs, of "[''r'']" "''/''"]
  show ?thesis by blast
qed

subsection \<open>The sources of a directory\<close>

lemma for_sources_append:
  "for_sources w start_dir rec tf_dir (xs @ ys) st =
     (case for_sources w start_dir rec tf_dir xs st of
        Inl e \<Rightarrow> Inl e
      | Inr s \<Rightarrow> for_sources w start_dir rec tf_dir ys s)"
  by (induction xs arbitrary: st) (auto split: sum.splits option.splits)

lemma for_files_collect:
  "collect_sources w tf_dir files = Inr sources \<Longrightarrow>
   for_files w start_dir rec tf_dir files st = for_sources w start_dir rec tf_dir sources st"
proof (induction files arbitrary: sources st)
  case Nil
  then show ?case by simp
next
  case (Cons f files)
  from Cons.prems obtain xs ys where xs: "extract_sources w (path_join tf_dir f) = Inr xs"
    and ys: "collect_sources w tf_dir files = Inr ys" and s: "sources = xs @ ys"
    by (auto split: sum.splits)
  from Cons.IH[OF ys] xs s show ?case
    by (simp add: for_sources_append split: sum.splits)
qed

lemma find_deps_for_dir_miss:
  assumes "tf_dir \<notin> set (lru st)" and "dir_sources w tf_dir = Inr sources"
  shows "find_deps_for_dir w start_dir (Suc k) tf_dir st =
     (case for_sources w start_dir (\<lambda>d s. find_deps_for_dir w start_dir k d s) tf_dir sources st of
        Inl e \<Rightarrow> Inl e
      | Inr st' \<Rightarrow> Inr (st'\<lparr>lru := lru_store (lru st') tf_dir\<rparr>))"
proof -
  from assms(2) obtain files where files: "get_tf_files w tf_dir = Inr files"
    and c: "collect_sources w tf_dir files = Inr sources"
    by (auto simp: dir_sources_def split: sum.splits)
  from for_files_collect[OF c] files assms(1) show ?thesis by simp
qed

lemma dir_sources_isdir: "dir_sources w d = Inr sources \<Longrightarrow> isdir w d"
  by (auto simp: dir_sources_def get_tf_files_def isdir_def split: sum.splits option.splits)

lemma declaresD:
  assumes "declares w d targets"
  obtains sources where "dir_sources w d = Inr sources" "None \<notin> set sources"
    "abspath (normpath d) ` set (followed sources) = targets" "isdir w d"
  using assms by (auto simp: declares_def dir_sources_isdir split: sum.splits)

lemma declares_canonical:
  assumes "declares w d targets" and "isabs d" and "t \<in> targets"
  shows "canonical t"
proof -
  from assms(1) obtain sources
    where "abspath (normpath d) ` set (followed sources) = targets"
    by (rule declaresD)
  with assms(3) obtain src where "t = abspath (normpath d) src" by auto
  with assms(2) show ?thesis by (simp add: abspath_canonical normpath_isabs)
qed

lemma for_sources_skip:
  "None \<notin> set sources \<Longrightarrow> followed sources = [] \<Longrightarrow>
   for_sources w start_dir rec tf_dir sources st = Inr st"
  by (induction sources) (auto simp: followed_def split: if_splits option.splits)

subsection \<open>Identities\<close>

lemma relpath_identity:
  "isabs start_dir \<Longrightarrow> isabs p \<Longrightarrow> relpath c p start_dir = Inr (module_identity start_dir p)"
  by (auto simp: module_identity_def relpath_def abspath_def Let_def isabs_def split: list.splits)

lemma chdir_canonical: "canonical d \<Longrightarrow> isdir w d \<Longrightarrow> chdir w cw d = Inr d"
  by (auto simp: canonical_def chdir_def abspath_def isabs_def)

lemma has_edge_lru [simp]: "has_edge (st\<lparr>lru := l\<rparr>) = has_edge st"
  by (simp add: has_edge_def fun_eq_iff)

lemma has_edge_dependents: "dependents st' = dependents st \<Longrightarrow> has_edge st' = has_edge st"
  by (simp add: has_edge_def fun_eq_iff)

lemma for_sources_step:
  assumes "canonical d" and "isdir w d" and "isabs start_dir" and "str_contains ''./'' src"
  shows "for_sources w start_dir rec d (Some src # sources) st =
     (case rec (abspath d src)
             (st\<lparr>cwd := d,
                 dependents := add_dependent (dependents st)
                   (module_identity start_dir (abspath d src)) (module_identity start_dir d)\<rparr>) of
        Inl e \<Rightarrow> Inl e
      | Inr st' \<Rightarrow> for_sources w start_dir rec d sources st')"
proof -
  from assms(1) have "isabs d" by (simp add: canonical_def)
  then have "isabs (abspath d src)" by (rule abspath_isabs)
  with assms \<open>isabs d\<close> show ?thesis
    by (simp add: chdir_canonical relpath_identity)
qed



subsection \<open>Building a diamond\<close>

lemma expand_leaf:
  assumes "declares w C {}"
  shows "\<exists>st'. find_deps_for_dir w start_dir (Suc j) C st = Inr st' \<and>
           dependents st' = dependents st \<and> set (lru st') \<subseteq> insert C (set (lru st))"
proof (cases "C \<in> set (lru st)")
  case True
  then show ?thesis by auto
next
  case False
  from assms obtain sources where s: "dir_sources w C = Inr sources" "None \<notin> set sources"
    "abspath (normpath C) ` set (followed sources) = {}"
    by (rule declaresD)
  then have "followed sources = []" by simp
  with s have "for_sources w start_dir (\<lambda>d s. find_deps_for_dir w start_dir j d s) C sources st = Inr st"
    by (simp add: for_sources_skip)
  with find_deps_for_dir_miss[OF False s(1), of start_dir j] set_lru_store[of "lru st" C]
  show ?thesis by simp
qed

lemma for_sources_to_leaf:
  assumes "canonical X" and "isdir w X" and "isabs start_dir" and "declares w C {}"
  shows "None \<notin> set sources \<Longrightarrow> abspath X ` set (followed sources) \<subseteq> {C} \<Longrightarrow>
    \<exists>st'. for_sources w start_dir (\<lambda>d s. find_deps_for_dir w start_dir (Suc j) d s) X sources st = Inr st' \<and>
      set (lru st') \<subseteq> insert C (set (lru st)) \<and>
      (\<forall>key v. has_edge st' key v \<longleftrightarrow>
         has_edge st key v \<or>
         (followed sources \<noteq> [] \<and> key = module_identity start_dir C \<and> v = module_identity start_dir X))"
proof (induction sources arbitrary: st)
  case Nil
  then show ?case by (auto simp: followed_def)
next
  case (Cons source sources)
  from Cons.prems(1) obtain src where source: "source = Some src" and none: "None \<notin> set sources"
    by (cases source) auto
  show ?case
  proof (cases "str_contains ''./'' src")
    case False
    with source have f: "followed (source # sources) = followed sources"
      by (simp add: followed_def)
    with Cons.prems have "abspath X ` set (followed sources) \<subseteq> {C}" by simp
    from Cons.IH[OF none this, of st] source False f show ?thesis by simp
  next
    case True
    with source have f: "followed (source # sources) = src # followed sources"
      by (simp add: followed_def)
    with Cons.prems(2) have tgt: "abspath X src = C"
      and rest: "abspath X ` set (followed sources) \<subseteq> {C}" by auto
    let ?s = "st\<lparr>cwd := X, dependents := add_dependent (dependents st)
                   (module_identity start_dir C) (module_identity start_dir X)\<rparr>"
    from expand_leaf[OF assms(4), of start_dir j ?s] obtain s1
      where s1: "find_deps_for_dir w start_dir (Suc j) C ?s = Inr s1"
        and d1: "dependents s1 = dependents ?s"
        and l1: "set (lru s1) \<subseteq> insert C (set (lru ?s))"
      by blast
    from Cons.IH[OF none rest, of s1] obtain st'
      where run: "for_sources w start_dir (\<lambda>d s. find_deps_for_dir w start_dir (Suc j) d s) X sources s1 = Inr st'"
        and l': "set (lru st') \<subseteq> insert C (set (lru s1))"
        and e': "\<forall>key v. has_edge st' key v \<longleftrightarrow>
           has_edge s1 key v \<or>
           (followed sources \<noteq> [] \<and> key = module_identity start_dir C \<and> v = module_identity start_dir X)"
      by blast
    have step: "for_sources w start_dir (\<lambda>d s. find_deps_for_dir w start_dir (Suc j) d s) X (source # sources) st = Inr st'"
      unfolding source
      by (subst for_sources_step[OF assms(1-3) True]) (simp only: tgt s1 sum.case run)
    have "has_edge s1 key v \<longleftrightarrow>
            (key = module_identity start_dir C \<and> v = module_identity start_dir X) \<or> has_edge st key v"
      for key v
      using has_edge_dependents[OF d1] by (simp add: has_edge_add)
    with e' f have "\<forall>key v. has_edge st' key v \<longleftrightarrow>
         has_edge st key v \<or>
         (followed (source # sources) \<noteq> [] \<and> key = module_identity start_dir C \<and> v = module_identity start_dir X)"
      by auto
    moreover from l' l1 have "set (lru st') \<subseteq> insert C (set (lru st))" by auto
    ultimately show ?thesis using step by blast
  qed
qed

lemma expand_side:
  assumes "isabs start_dir" and "declares w X {C}" and "declares w C {}"
    and "X = A \<or> X = B" and "C \<noteq> A" and "C \<noteq> B"
    and "diamond_inv start_dir A B C st"
    and "canonical X"
  shows "\<exists>st'. find_deps_for_dir w start_dir (Suc (Suc j)) X st = Inr st' \<and>
           diamond_inv start_dir A B C st' \<and>
           has_edge st' (module_identity start_dir C) (module_identity start_dir X)"
proof (cases "X \<in> set (lru st)")
  case True
  with assms(4,7) show ?thesis by (auto simp: diamond_inv_def)
next
  case False
  from assms(2) obtain sources where s: "dir_sources w X = Inr sources" "None \<notin> set sources"
    "abspath (normpath X) ` set (followed sources) = {C}" "isdir w X"
    by (rule declaresD)
  then have ne: "followed sources \<noteq> []" by auto
  from s assms(8) have "abspath X ` set (followed sources) \<subseteq> {C}"
    by (simp add: canonical_def)
  from for_sources_to_leaf[OF assms(8) s(4) assms(1,3) s(2) this, of j st] obtain s1
    where run: "for_sources w start_dir (\<lambda>d s. find_deps_for_dir w start_dir (Suc j) d s) X sources st = Inr s1"
      and l1: "set (lru s1) \<subseteq> insert C (set (lru st))"
      and e1: "\<forall>key v. has_edge s1 key v \<longleftrightarrow>
         has_edge st key v \<or>
         (followed sources \<noteq> [] \<and> key = module_identity start_dir C \<and> v = module_identity start_dir X)"
    by blast
  let ?st' = "s1\<lparr>lru := lru_store (lru s1) X\<rparr>"
  from find_deps_for_dir_miss[OF False s(1), of start_dir "Suc j"] run
  have res: "find_deps_for_dir w start_dir (Suc (Suc j)) X st = Inr ?st'"
    by (simp del: find_deps_for_dir.simps)
  from l1 set_lru_store[of "lru s1" X]
  have l': "set (lru ?st') \<subseteq> insert X (insert C (set (lru st)))" by auto
  from e1 ne have e': "has_edge ?st' key v \<longleftrightarrow>
         has_edge st key v \<or> (key = module_identity start_dir C \<and> v = module_identity start_dir X)"
    for key v by simp
  have "diamond_inv start_dir A B C ?st'"
    unfolding diamond_inv_def
  proof (intro conjI impI allI)
    assume "A \<in> set (lru ?st')"
    with l' assms(5) have "A = X \<or> A \<in> set (lru st)" by auto
    with assms(7) show "has_edge ?st' (module_identity start_dir C) (module_identity start_dir A)"
      unfolding e' by (auto simp: diamond_inv_def)
  next
    assume "B \<in> set (lru ?st')"
    with l' assms(6) have "B = X \<or> B \<in> set (lru st)" by auto
    with assms(7) show "has_edge ?st' (module_identity start_dir C) (module_identity start_dir B)"
      unfolding e' by (auto simp: diamond_inv_def)
  next
    fix v assume "has_edge ?st' (module_identity start_dir C) v"
    with assms(4,7) show "v = module_identity start_dir A \<or> v = module_identity start_dir B"
      unfolding e' by (auto simp: diamond_inv_def)
  qed
  moreover have "has_edge ?st' (module_identity start_dir C) (module_identity start_dir X)"
    unfolding e' by simp
  ultimately show ?thesis using res by blast
qed



lemma for_sources_root:
  assumes "canonical R" and "isdir w R" and "isabs start_dir"
    and "declares w A {C}" and "declares w B {C}" and "declares w C {}"
    and "C \<noteq> A" and "C \<noteq> B"
    and "module_identity start_dir C \<noteq> module_identity start_dir A"
    and "module_identity start_dir C \<noteq> module_identity start_dir B"
    and "canonical A" and "canonical B"
  shows "None \<notin> set sources \<Longrightarrow> abspath R ` set (followed sources) \<subseteq> {A, B} \<Longrightarrow>
    diamond_inv start_dir A B C st \<Longrightarrow>
    \<exists>st'. for_sources w start_dir (\<lambda>d s. find_deps_for_dir w start_dir (Suc (Suc j)) d s) R sources st = Inr st' \<and>
      diamond_inv start_dir A B C st' \<and>
      (A \<in> abspath R ` set (followed sources) \<longrightarrow>
         has_edge st' (module_identity start_dir C) (module_identity start_dir A)) \<and>
      (B \<in> abspath R ` set (followed sources) \<longrightarrow>
         has_edge st' (module_identity start_dir C) (module_identity start_dir B))"
proof (induction sources arbitrary: st)
  case Nil
  then show ?case by (simp add: followed_def)
next
  case (Cons source sources)
  from Cons.prems(1) obtain src where source: "source = Some src" and none: "None \<notin> set sources"
    by (cases source) auto
  show ?case
  proof (cases "str_contains ''./'' src")
    case False
    with source have f: "followed (source # sources) = followed sources"
      by (simp add: followed_def)
    with Cons.prems have "abspath R ` set (followed sources) \<subseteq> {A, B}" by simp
    from Cons.IH[OF none this Cons.prems(3)] source False f show ?thesis by simp
  next
    case True
    with source have f: "followed (source # sources) = src # followed sources"
      by (simp add: followed_def)
    with Cons.prems(2) have tgt: "abspath R src = A \<or> abspath R src = B"
      and rest: "abspath R ` set (followed sources) \<subseteq> {A, B}" by auto
    let ?X = "abspath R src"
    let ?s = "st\<lparr>cwd := R, dependents := add_dependent (dependents st)
                   (module_identity start_dir ?X) (module_identity start_dir R)\<rparr>"
    from tgt assms(9,10)
    have neq: "module_identity start_dir C \<noteq> module_identity start_dir ?X" by auto
    then have "has_edge ?s (module_identity start_dir C) v = has_edge st (module_identity start_dir C) v"
      for v by (simp add: has_edge_add)
    with Cons.prems(3) have inv: "diamond_inv start_dir A B C ?s"
      by (simp add: diamond_inv_def)
    from tgt assms(4,5) have decl: "declares w ?X {C}" by auto
    from tgt assms(11,12) have can: "canonical ?X" by auto
    from expand_side[OF assms(3) decl assms(6) tgt assms(7,8) inv can, of j] obtain s1
      where s1: "find_deps_for_dir w start_dir (Suc (Suc j)) ?X ?s = Inr s1"
        and inv1: "diamond_inv start_dir A B C s1"
        and edge1: "has_edge s1 (module_identity start_dir C) (module_identity start_dir ?X)"
      by blast
    from Cons.IH[OF none rest inv1] obtain st'
      where run: "for_sources w start_dir (\<lambda>d s. find_deps_for_dir w start_dir (Suc (Suc j)) d s) R sources s1 = Inr st'"
        and inv': "diamond_inv start_dir A B C st'"
        and a': "A \<in> abspath R ` set (followed sources) \<longrightarrow>
                   has_edge st' (module_identity start_dir C) (module_identity start_dir A)"
        and b': "B \<in> abspath R ` set (followed sources) \<longrightarrow>
                   has_edge st' (module_identity start_dir C) (module_identity start_dir B)"
      by blast
    have step: "for_sources w start_dir (\<lambda>d s. find_deps_for_dir w start_dir (Suc (Suc j)) d s) R (source # sources) st = Inr st'"
      unfolding source
      by (subst for_sources_step[OF assms(1-3) True]) (simp only: s1 sum.case run)
    have edge': "has_edge st' (module_identity start_dir C) (module_identity start_dir ?X)"
      by (rule for_sources_keeps_edges[OF _ run edge1]) (rule find_deps_for_dir_keeps_edges)
    have "A \<in> abspath R ` set (followed (source # sources)) \<longrightarrow>
            has_edge st' (module_identity start_dir C) (module_identity start_dir A)"
      using f a' edge' by auto
    moreover have "B \<in> abspath R ` set (followed (source # sources)) \<longrightarrow>
            has_edge st' (module_identity start_dir C) (module_identity start_dir B)"
      using f b' edge' by auto
    ultimately show ?thesis using step inv' by blast
  qed
qed

text \<open>
  Claim C5: for every diamond (the root \<open>R\<close> declares \<open>A\<close> and \<open>B\<close>, and both declare
  \<open>C\<close>, by whatever relative strings that resolve to it), \<^verbatim>\<open>build_dependency_dict\<close>,
  called for the root with a \<open>start_dir\<close> that is an existing directory, given by its
  normalised absolute path, and a recursion limit of at least three calls, returns a map
  in which the one identity of \<open>C\<close>, its path relative to \<open>start_dir\<close>, has exactly the
  two dependents \<open>A\<close> and \<open>B\<close>.
\<close>

theorem diamond_resolves_to_one_identity:
  assumes "diamond w start_dir R A B C"
    and "isdir w start_dir"
    and "abspath start_dir root = R"
    and "3 \<le> n"
  shows "\<exists>st. build_dependency_dict w n cwd0 [root] start_dir = Inr st \<and>
           dependents st (module_identity start_dir C) =
             Some {module_identity start_dir A, module_identity start_dir B}"
proof -
  from assms(1) have csd: "canonical start_dir" by (simp add: diamond_def)
  then have sd: "isabs start_dir" by (simp add: canonical_def)
  define c where "c = start_dir"
  from csd assms(2) have chd: "chdir w cw start_dir = Inr c" for cw
    unfolding c_def by (rule chdir_canonical)
  from assms(3) have rootR: "abspath c root = R" by (simp add: c_def)
  from assms(1) have dR: "declares w R {A, B}" and dA: "declares w A {C}" and dB: "declares w B {C}"
    and dC: "declares w C {}"
    and iA: "module_identity start_dir C \<noteq> module_identity start_dir A"
    and iB: "module_identity start_dir C \<noteq> module_identity start_dir B"
    by (simp_all add: diamond_def)
  from dA dC have CA: "C \<noteq> A" by (auto simp: declares_def split: sum.splits)
  from dB dC have CB: "C \<noteq> B" by (auto simp: declares_def split: sum.splits)
  from sd have "isabs c" by (simp add: c_def)
  with rootR have cR: "canonical R" by (auto simp: abspath_canonical)
  then have aR: "isabs R" by (simp add: canonical_def)
  from declares_canonical[OF dR aR] have cA: "canonical A" and cB: "canonical B" by simp_all
  from dR obtain sources where s0: "dir_sources w R = Inr sources" "None \<notin> set sources"
    "abspath (normpath R) ` set (followed sources) = {A, B}" "isdir w R"
    by (rule declaresD)
  with cR have s: "dir_sources w R = Inr sources" "None \<notin> set sources"
    "abspath R ` set (followed sources) = {A, B}" "canonical R" "isdir w R"
    by (simp_all add: canonical_def)
  from assms(4) obtain j where n: "n = Suc (Suc (Suc j))"
    by (metis Suc_le_D numeral_3_eq_3 Suc_le_mono)
  let ?s0 = "\<lparr>dependents = Map.empty, lru = [], cwd = c\<rparr>"
  have inv0: "diamond_inv start_dir A B C ?s0"
    by (simp add: diamond_inv_def has_edge_def)
  from s(3) have sub: "abspath R ` set (followed sources) \<subseteq> {A, B}" by simp
  from for_sources_root[OF s(4,5) sd dA dB dC CA CB iA iB cA cB s(2) sub inv0, of j] s(3) obtain s1
    where run: "for_sources w start_dir (\<lambda>d s. find_deps_for_dir w start_dir (Suc (Suc j)) d s) R sources ?s0 = Inr s1"
      and inv1: "diamond_inv start_dir A B C s1"
      and a1: "has_edge s1 (module_identity start_dir C) (module_identity start_dir A)"
      and b1: "has_edge s1 (module_identity start_dir C) (module_identity start_dir B)"
    by auto
  let ?st = "s1\<lparr>lru := lru_store (lru s1) R\<rparr>"
  have miss: "R \<notin> set (lru ?s0)" by simp
  from find_deps_for_dir_miss[OF miss s(1), of start_dir "Suc (Suc j)"] run
  have exp: "find_deps_for_dir w start_dir n R ?s0 = Inr ?st"
    unfolding n by (simp del: find_deps_for_dir.simps)
  from chd[of cwd0] chd[of c] rootR exp
  have res: "build_dependency_dict w n cwd0 [root] start_dir = Inr ?st"
    by (simp add: build_dependency_dict_def del: find_deps_for_dir.simps)
  from a1 obtain S where S: "dependents s1 (module_identity start_dir C) = Some S"
    by (auto simp: has_edge_def split: option.splits)
  with a1 b1 inv1 have "S = {module_identity start_dir A, module_identity start_dir B}"
    by (auto simp: has_edge_def diamond_inv_def)
  with S res show ?thesis by simp
qed

lemma diamond_world_diamond: "diamond diamond_world ''/'' ''/r'' ''/r/a'' ''/r/b'' ''/r/c''"
  by (simp add: diamond_def declares_def canonical_def dir_sources_def followed_def
      module_identity_def build_eval path_eval diamond_world_def diamond_tf_r_def
      diamond_tf_a_def diamond_tf_b_def insert_commute)

theorem diamond_resolves_to_one_identity_witness:
  "diamond diamond_world ''/'' ''/r'' ''/r/a'' ''/r/b'' ''/r/c'' \<and>
   isdir diamond_world ''/'' \<and> abspath ''/'' ''r'' = ''/r'' \<and>
   module_identity ''/'' ''/r/a'' = ''r/a'' \<and> module_identity ''/'' ''/r/b'' = ''r/b'' \<and>
   module_identity ''/'' ''/r/c'' = ''r/c'' \<and>
   (\<exists>st. build_dependency_dict diamond_world 3 ''/'' [''r''] ''/'' = Inr st \<and>
      dependents st ''r/c'' = Some {''r/a'', ''r/b''})"
proof -
  have c: "isdir diamond_world ''/''"
    by (simp add: isdir_def diamond_world_def)
  have r: "abspath ''/'' ''r'' = ''/r''" by (simp add: path_eval)
  have ids: "module_identity ''/'' ''/r/a'' = ''r/a''" "module_identity ''/'' ''/r/b'' = ''r/b''"
    "module_identity ''/'' ''/r/c'' = ''r/c''"
    by (simp_all add: module_identity_def path_eval)
  from diamond_resolves_to_one_identity[OF diamond_world_diamond c r, of 3 "''/''"] ids
  have "\<exists>st. build_dependency_dict diamond_world 3 ''/'' [''r''] ''/'' = Inr st \<and>
      dependents st ''r/c'' = Some {''r/a'', ''r/b''}" by simp
  with diamond_world_diamond c r ids show ?thesis by blast
qed

end
